theory Spec2Isabelle
  imports Main
begin

text \<open>
  A model of the in-page search of the crystal frontend: the \<^verbatim>\<open>useSearch\<close> hook
  (a state machine over query, options, match list and current index), the utilities of
  \<^verbatim>\<open>searchUtils\<close> (pattern building, \<^verbatim>\<open>findTextMatches\<close>, \<^verbatim>\<open>highlightMatches\<close>,
  \<^verbatim>\<open>removeHighlights\<close>) over a tree of DOM nodes, and the callbacks of the terminal
  adapter \<^verbatim>\<open>useTerminalSearch\<close>. The definitions come first, the properties after them.
\<close>

section \<open>Data model of the search hook (useSearch)\<close>

text \<open>
  \<^verbatim>\<open>SearchOptions\<close> is the pair of option flags handed to the backend's search callback.
  \<^verbatim>\<open>SearchState\<close> carries the same two flags next to its own fields, so it is modelled as
  an extension of \<^verbatim>\<open>SearchOptions\<close>: the selectors \<open>caseSensitive\<close> and \<open>wholeWord\<close>
  read both. \<open>currentMatch\<close> and \<open>totalMatches\<close> are only ever assigned \<open>0\<close>, \<open>1\<close>, a list
  length, or a guarded \<open>\<plusminus> 1\<close> of such a value, so they are natural numbers.
\<close>

record SearchOptions =
  caseSensitive :: bool
  wholeWord :: bool

record SearchState = SearchOptions +
  isOpen :: bool
  query :: string
  currentMatch :: nat
  totalMatches :: nat

text \<open>
  A \<^verbatim>\<open>SearchMatch\<close>. The field \<^verbatim>\<open>id\<close> is \<open>match_id\<close> and \<^verbatim>\<open>text\<close> is \<open>match_text\<close>
  here; \<open>'e\<close> is the type of element references. The indices are JavaScript numbers
  that hold integers.
\<close>

record 'e SearchMatch =
  match_id :: string
  element :: 'e
  match_text :: string
  startIndex :: int
  endIndex :: int

datatype direction = Next | Prev

text \<open>
  \<^verbatim>\<open>UseSearchOptions\<close>: the three optional callbacks of a backend. A callback acts on the
  backend's own state \<open>'b\<close> (the document subtree, or the terminal widget), which is
  threaded through explicitly; \<open>None\<close> is an absent callback (\<^verbatim>\<open>options.onSearch?.(...)\<close>).
\<close>

record ('e, 'b) UseSearchOptions =
  onSearch :: "(string \<Rightarrow> SearchOptions \<Rightarrow> 'b \<Rightarrow> 'e SearchMatch list \<times> 'b) option"
  onNavigate :: "('e SearchMatch option \<Rightarrow> direction \<Rightarrow> 'b \<Rightarrow> 'b) option"
  onClose :: "('b \<Rightarrow> 'b) option"

text \<open>
  The state held by one \<^verbatim>\<open>useSearch\<close> instance: the two \<^verbatim>\<open>useState\<close> cells, the
  callbacks scheduled with \<^verbatim>\<open>setTimeout(() => performSearch(prev.query), 0)\<close> that have not
  run yet, and the backend's state. A scheduled callback is the \<^verbatim>\<open>performSearch\<close> closure
  of the render in which the toggle handler was created, so it is recorded as the option
  values that closure captured (\<^verbatim>\<open>searchState.caseSensitive\<close>, \<^verbatim>\<open>searchState.wholeWord\<close>)
  together with its argument.
\<close>

record ('e, 'b) hook =
  searchState :: SearchState
  matches :: "'e SearchMatch list"
  pending :: "(SearchOptions \<times> string) list"
  backend :: 'b

definition initialSearchState :: SearchState where
  "initialSearchState =
     \<lparr>caseSensitive = False, wholeWord = False,
      isOpen = False, query = [], currentMatch = 0, totalMatches = 0\<rparr>"

definition initialHook :: "'b \<Rightarrow> ('e, 'b) hook" where
  "initialHook b = \<lparr>searchState = initialSearchState, matches = [], pending = [], backend = b\<rparr>"

subsection \<open>String.prototype.trim\<close>

text \<open>
  Strings are lists of code units below 256. In that range the characters removed by
  \<^verbatim>\<open>trim\<close> (WhiteSpace and LineTerminator of ECMAScript) are TAB, LF, VT, FF, CR, SP
  and NBSP.
\<close>

definition js_whitespace :: "char \<Rightarrow> bool" where
  "js_whitespace c = (of_char c \<in> {9, 10, 11, 12, 13, 32, 160 :: nat})"

definition js_trim :: "string \<Rightarrow> string" where
  "js_trim s = rev (dropWhile js_whitespace (rev (dropWhile js_whitespace s)))"

subsection \<open>The handlers of useSearch\<close>

definition currentOptions :: "SearchState \<Rightarrow> SearchOptions" where
  "currentOptions s = \<lparr>caseSensitive = caseSensitive s, wholeWord = wholeWord s\<rparr>"

text \<open>
  Each handler below is the one of the latest render, so what it closed over is the
  current state. \<^verbatim>\<open>openSearch\<close> also schedules a focus of the input field, which touches
  nothing modelled here.
\<close>

definition openSearch :: "('e, 'b) hook \<Rightarrow> ('e, 'b) hook" where
  "openSearch h = h\<lparr>searchState := (searchState h)\<lparr>isOpen := True\<rparr>\<rparr>"

definition closeSearch :: "('e, 'b) UseSearchOptions \<Rightarrow> ('e, 'b) hook \<Rightarrow> ('e, 'b) hook" where
  "closeSearch cb h =
     h\<lparr>searchState := (searchState h)\<lparr>isOpen := False, query := [],
                                        currentMatch := 0, totalMatches := 0\<rparr>,
       matches := [],
       backend := (case onClose cb of None \<Rightarrow> backend h | Some f \<Rightarrow> f (backend h))\<rparr>"

text \<open>
  \<^verbatim>\<open>performSearch\<close>. The second argument is what the closure captured from its render:
  the options passed to \<^verbatim>\<open>onSearch\<close> are read from there, not from the state being
  updated (\<^verbatim>\<open>setSearchState((prev) => ...)\<close> only writes \<^verbatim>\<open>query\<close>, \<^verbatim>\<open>currentMatch\<close> and
  \<^verbatim>\<open>totalMatches\<close>).
\<close>

definition performSearch ::
  "('e, 'b) UseSearchOptions \<Rightarrow> SearchOptions \<Rightarrow> string \<Rightarrow> ('e, 'b) hook \<Rightarrow> ('e, 'b) hook" where
  "performSearch cb captured q h =
     (if js_trim q = [] then
        h\<lparr>matches := [],
          searchState := (searchState h)\<lparr>query := q, currentMatch := 0, totalMatches := 0\<rparr>\<rparr>
      else
        let (searchMatches, b1) =
              (case onSearch cb of
                 None \<Rightarrow> ([], backend h)
               | Some f \<Rightarrow> f q captured (backend h));
            b2 = (if length searchMatches > 0 then
                    (case onNavigate cb of
                       None \<Rightarrow> b1
                     | Some nav \<Rightarrow> nav (Some (searchMatches ! 0)) Next b1)
                  else b1)
        in h\<lparr>matches := searchMatches,
             searchState := (searchState h)
               \<lparr>query := q,
                currentMatch := (if length searchMatches > 0 then 1 else 0),
                totalMatches := length searchMatches\<rparr>,
             backend := b2\<rparr>)"

text \<open>
  \<^verbatim>\<open>navigateToMatch\<close>. \<^verbatim>\<open>matches[newIndex - 1]\<close> is \<^verbatim>\<open>undefined\<close> out of range, and then
  the callback is not called.
\<close>

definition navigateToMatch ::
  "('e, 'b) UseSearchOptions \<Rightarrow> direction \<Rightarrow> ('e, 'b) hook \<Rightarrow> ('e, 'b) hook" where
  "navigateToMatch cb dir h =
     (if length (matches h) = 0 then h
      else
        let cur = currentMatch (searchState h);
            newIndex = (case dir of
                          Next \<Rightarrow> (if cur \<ge> length (matches h) then 1 else cur + 1)
                        | Prev \<Rightarrow> (if cur \<le> 1 then length (matches h) else cur - 1));
            b = (if 1 \<le> newIndex \<and> newIndex - 1 < length (matches h) then
                   (case onNavigate cb of
                      None \<Rightarrow> backend h
                    | Some nav \<Rightarrow> nav (Some (matches h ! (newIndex - 1))) dir (backend h))
                 else backend h)
        in h\<lparr>searchState := (searchState h)\<lparr>currentMatch := newIndex\<rparr>, backend := b\<rparr>)"

text \<open>
  \<^verbatim>\<open>setQuery\<close> is called from the latest render, whose \<^verbatim>\<open>performSearch\<close> captured the
  options of the current state.
\<close>

definition setQuery ::
  "('e, 'b) UseSearchOptions \<Rightarrow> string \<Rightarrow> ('e, 'b) hook \<Rightarrow> ('e, 'b) hook" where
  "setQuery cb q h = performSearch cb (currentOptions (searchState h)) q h"

text \<open>
  The toggles flip one flag and, when \<^verbatim>\<open>prev.query\<close> is a non-empty string, schedule
  \<^verbatim>\<open>performSearch(prev.query)\<close>. The scheduled \<^verbatim>\<open>performSearch\<close> is the one the toggle
  handler closed over (dependency list \<^verbatim>\<open>[performSearch]\<close>), created in the render that saw
  the state before the flip.
\<close>

definition toggleCaseSensitive :: "('e, 'b) hook \<Rightarrow> ('e, 'b) hook" where
  "toggleCaseSensitive h =
     (let prev = searchState h
      in h\<lparr>searchState := prev\<lparr>caseSensitive := \<not> caseSensitive prev\<rparr>,
           pending := pending h @
             (if query prev \<noteq> [] then [(currentOptions prev, query prev)] else [])\<rparr>)"

definition toggleWholeWord :: "('e, 'b) hook \<Rightarrow> ('e, 'b) hook" where
  "toggleWholeWord h =
     (let prev = searchState h
      in h\<lparr>searchState := prev\<lparr>wholeWord := \<not> wholeWord prev\<rparr>,
           pending := pending h @
             (if query prev \<noteq> [] then [(currentOptions prev, query prev)] else [])\<rparr>)"

text \<open>The oldest scheduled callback runs (timers of equal delay fire in order).\<close>

definition runTimeout :: "('e, 'b) UseSearchOptions \<Rightarrow> ('e, 'b) hook \<Rightarrow> ('e, 'b) hook" where
  "runTimeout cb h =
     (case pending h of
        [] \<Rightarrow> h
      | (captured, q) # rest \<Rightarrow> performSearch cb captured q (h\<lparr>pending := rest\<rparr>))"

subsection \<open>The state machine\<close>

datatype event =
    Open | Close | SetQuery string | Navigate direction
  | ToggleCaseSensitive | ToggleWholeWord | Timeout

fun step :: "('e, 'b) UseSearchOptions \<Rightarrow> event \<Rightarrow> ('e, 'b) hook \<Rightarrow> ('e, 'b) hook" where
  "step cb Open h = openSearch h"
| "step cb Close h = closeSearch cb h"
| "step cb (SetQuery q) h = setQuery cb q h"
| "step cb (Navigate d) h = navigateToMatch cb d h"
| "step cb ToggleCaseSensitive h = toggleCaseSensitive h"
| "step cb ToggleWholeWord h = toggleWholeWord h"
| "step cb Timeout h = runTimeout cb h"

fun run :: "('e, 'b) UseSearchOptions \<Rightarrow> event list \<Rightarrow> ('e, 'b) hook \<Rightarrow> ('e, 'b) hook" where
  "run cb [] h = h"
| "run cb (e # es) h = run cb es (step cb e h)"

text \<open>The invariant of the counters, with the link to the stored match list that carries it.\<close>

definition counters_ok :: "('e, 'b) hook \<Rightarrow> bool" where
  "counters_ok h =
     (totalMatches (searchState h) = length (matches h) \<and>
      (if totalMatches (searchState h) = 0 then currentMatch (searchState h) = 0
       else 1 \<le> currentMatch (searchState h) \<and>
            currentMatch (searchState h) \<le> totalMatches (searchState h)))"

section \<open>searchUtils: building the pattern\<close>

definition backslash :: char where
  "backslash = CHR 0x5C"

text \<open>The characters of the class in \<^verbatim>\<open>escapeRegExp\<close>, in the order they are written there.\<close>

definition escaped_chars :: "char list" where
  "escaped_chars =
     [CHR ''.'', CHR ''*'', CHR ''+'', CHR ''?'', CHR ''^'', CHR ''$'', CHR ''{'', CHR ''}'',
      CHR ''('', CHR '')'', CHR ''|'', CHR ''['', CHR '']'', backslash]"

text \<open>\<^verbatim>\<open>string.replace(/[...]/g, '\\$&')\<close>: a backslash goes before each character of the class.\<close>

definition escapeRegExp :: "string \<Rightarrow> string" where
  "escapeRegExp s = concat (map (\<lambda>c. if c \<in> set escaped_chars then [backslash, c] else [c]) s)"

definition search_pattern :: "string \<Rightarrow> SearchOptions \<Rightarrow> string" where
  "search_pattern q opts =
     (let pattern = escapeRegExp q
      in if wholeWord opts then [backslash, CHR ''b''] @ pattern @ [backslash, CHR ''b'']
         else pattern)"

definition search_flags :: "SearchOptions \<Rightarrow> string" where
  "search_flags opts = (if caseSensitive opts then ''g'' else ''gi'')"

subsection \<open>The host's RegExp, on the patterns this program can build\<close>

text \<open>
  The regular-expression engine belongs to the host platform. It is modelled on the
  fragment of the pattern language that the program reaches: sequences of pattern
  characters and \<^verbatim>\<open>\b\<close> assertions, with the flags \<^verbatim>\<open>g\<close> and \<^verbatim>\<open>gi\<close>.
  \<open>syntax_chars\<close> is ECMAScript's SyntaxCharacter. A pattern character is any character
  that is not a syntax character, or a syntax character after a backslash (an identity
  escape). An unescaped syntax character is an operator, and any escape other than an
  identity escape or \<^verbatim>\<open>\b\<close> is a class, a back reference or a control escape: on both,
  and on a backslash that ends the pattern, \<open>parse_pattern\<close> answers \<open>None\<close>, which
  stands for "outside the modelled fragment, or a SyntaxError".
\<close>

definition syntax_chars :: "char list" where
  "syntax_chars =
     [CHR ''^'', CHR ''$'', backslash, CHR ''.'', CHR ''*'', CHR ''+'', CHR ''?'',
      CHR ''('', CHR '')'', CHR ''['', CHR '']'', CHR ''{'', CHR ''}'', CHR ''|'']"

datatype rx_atom = PatternChar char | WordBoundary

fun parse_pattern :: "string \<Rightarrow> rx_atom list option" where
  "parse_pattern [] = Some []"
| "parse_pattern [c] =
     (if c \<in> set syntax_chars then None else Some [PatternChar c])"
| "parse_pattern (c # d # ds) =
     (if c = backslash then
        (if d \<in> set syntax_chars then map_option ((#) (PatternChar d)) (parse_pattern ds)
         else if d = CHR ''b'' then map_option ((#) WordBoundary) (parse_pattern ds)
         else None)
      else if c \<in> set syntax_chars then None
      else map_option ((#) (PatternChar c)) (parse_pattern (d # ds)))"

record RegExp =
  atoms :: "rx_atom list"
  ignoreCase :: bool

text \<open>\<^verbatim>\<open>new RegExp(pattern, flags)\<close>; both flag strings of the program set \<^verbatim>\<open>global\<close>.\<close>

definition RegExp_new :: "string \<Rightarrow> string \<Rightarrow> RegExp option" where
  "RegExp_new pattern flags =
     (case parse_pattern pattern of
        None \<Rightarrow> None
      | Some as \<Rightarrow>
          if flags = ''g'' then Some \<lparr>atoms = as, ignoreCase = False\<rparr>
          else if flags = ''gi'' then Some \<lparr>atoms = as, ignoreCase = True\<rparr>
          else None)"

definition createSearchRegex :: "string \<Rightarrow> SearchOptions \<Rightarrow> RegExp option" where
  "createSearchRegex q opts = RegExp_new (search_pattern q opts) (search_flags opts)"

text \<open>
  Canonicalize of ECMAScript without the \<^verbatim>\<open>u\<close> flag, on code units below 256: the
  upper-case mapping where it stays a single code unit of the same range. The letters
  \<^verbatim>\<open>a-z\<close> and \<^verbatim>\<open>0xE0-0xFE\<close> (without the division sign \<^verbatim>\<open>0xF7\<close>) move down by 32; every
  other code unit of the range is alone in its class.
\<close>

definition canonicalize :: "char \<Rightarrow> char" where
  "canonicalize c =
     (let n = (of_char c :: nat)
      in if (97 \<le> n \<and> n \<le> 122) \<or> (224 \<le> n \<and> n \<le> 254 \<and> n \<noteq> 247)
         then char_of (n - 32) else c)"

definition char_matches :: "bool \<Rightarrow> char \<Rightarrow> char \<Rightarrow> bool" where
  "char_matches ic a b = (if ic then canonicalize a = canonicalize b else a = b)"

text \<open>IsWordChar: the 63 basic word characters; the positions before and after the text are not.\<close>

definition word_char :: "char \<Rightarrow> bool" where
  "word_char c =
     (let n = (of_char c :: nat)
      in (97 \<le> n \<and> n \<le> 122) \<or> (65 \<le> n \<and> n \<le> 90) \<or> (48 \<le> n \<and> n \<le> 57) \<or> n = 95)"

definition is_word_char_at :: "string \<Rightarrow> int \<Rightarrow> bool" where
  "is_word_char_at text e =
     (if e < 0 \<or> e \<ge> int (length text) then False else word_char (text ! nat e))"

definition word_boundary_at :: "string \<Rightarrow> nat \<Rightarrow> bool" where
  "word_boundary_at text i = (is_word_char_at text (int i - 1) \<noteq> is_word_char_at text (int i))"

text \<open>Matching the atoms at a position: the end position of the match, if there is one.\<close>

fun match_atoms :: "bool \<Rightarrow> rx_atom list \<Rightarrow> string \<Rightarrow> nat \<Rightarrow> nat option" where
  "match_atoms ic [] text i = Some i"
| "match_atoms ic (PatternChar c # as) text i =
     (if i < length text \<and> char_matches ic (text ! i) c then match_atoms ic as text (Suc i)
      else None)"
| "match_atoms ic (WordBoundary # as) text i =
     (if word_boundary_at text i then match_atoms ic as text i else None)"

text \<open>The first position from \<open>i\<close> on at which the pattern matches, with the end of the match.\<close>

function scan :: "RegExp \<Rightarrow> string \<Rightarrow> nat \<Rightarrow> (nat \<times> nat) option" where
  "scan r text i =
     (if i > length text then None
      else case match_atoms (ignoreCase r) (atoms r) text i of
             Some e \<Rightarrow> Some (i, e)
           | None \<Rightarrow> scan r text (Suc i))"
  by pat_completeness auto
termination
  by (relation "measure (\<lambda>(r, text, i). Suc (length text) - i)") auto

declare scan.simps [simp del]

text \<open>
  \<^verbatim>\<open>regex.exec(text)\<close> of a global RegExp whose \<^verbatim>\<open>lastIndex\<close> is the third argument:
  the match (start and end position) if any, and the new \<^verbatim>\<open>lastIndex\<close>.
\<close>

definition regex_exec :: "RegExp \<Rightarrow> string \<Rightarrow> nat \<Rightarrow> (nat \<times> nat) option \<times> nat" where
  "regex_exec r text lastIndex =
     (if lastIndex > length text then (None, 0)
      else case scan r text lastIndex of
             None \<Rightarrow> (None, 0)
           | Some (i, e) \<Rightarrow> (Some (i, e), e))"

section \<open>searchUtils: the document subtree\<close>

text \<open>
  A DOM node: a text node, a comment, or an element with its tag name, its class list, its
  other attributes and its children.
\<close>

datatype node =
    TextN string
  | Comment string
  | Elem string "string list" "(string \<times> string) list" "node list"

text \<open>
  \<^verbatim>\<open>textContent\<close> of an element: the text of its descendant text nodes, in document order.
  On a comment the function gives what the comment adds to an enclosing element: nothing.
\<close>

fun textContent :: "node \<Rightarrow> string" where
  "textContent (TextN s) = s"
| "textContent (Comment s) = []"
| "textContent (Elem tag cls attrs children) = concat (map textContent children)"

fun is_script_style :: "node \<Rightarrow> bool" where
  "is_script_style (Elem tag cls attrs children) = (tag = ''script'' \<or> tag = ''style'')"
| "is_script_style (TextN s) = False"
| "is_script_style (Comment s) = False"

text \<open>\<^verbatim>\<open>clone.querySelectorAll('script, style').forEach(el => el.remove())\<close>\<close>

fun remove_script_style :: "node \<Rightarrow> node" where
  "remove_script_style (Elem tag cls attrs children) =
     Elem tag cls attrs (map remove_script_style (filter (\<lambda>n. \<not> is_script_style n) children))"
| "remove_script_style (TextN s) = TextN s"
| "remove_script_style (Comment s) = Comment s"

definition extractTextContent :: "node \<Rightarrow> string" where
  "extractTextContent el = textContent (remove_script_style el)"

subsection \<open>findTextMatches\<close>

definition digit_char :: "nat \<Rightarrow> char" where
  "digit_char d = char_of (48 + d)"

text \<open>The decimal string of a number, as the template literal writes \<^verbatim>\<open>matches.length\<close>.\<close>

function string_of_nat :: "nat \<Rightarrow> string" where
  "string_of_nat n =
     (if n < 10 then [digit_char n] else string_of_nat (n div 10) @ [digit_char (n mod 10)])"
  by pat_completeness auto
termination
  by (relation "measure id") auto

declare string_of_nat.simps [simp del]

text \<open>
  The \<^verbatim>\<open>while ((match = regex.exec(text)) !== null)\<close> loop, with \<^verbatim>\<open>regex.lastIndex\<close> and
  the \<^verbatim>\<open>matches\<close> array as arguments. Nothing is assumed about its termination: \<open>None\<close>
  is a loop that does not return.
\<close>

partial_function (option) exec_loop ::
  "RegExp \<Rightarrow> string \<Rightarrow> 'e \<Rightarrow> string \<Rightarrow> nat \<Rightarrow> 'e SearchMatch list \<Rightarrow> 'e SearchMatch list option" where
  "exec_loop regex text el elementId lastIndex ms =
     (case regex_exec regex text lastIndex of
        (None, li) \<Rightarrow> Some ms
      | (Some (index, e), li) \<Rightarrow>
          exec_loop regex text el elementId
            (if index = li then li + 1 else li)
            (ms @ [\<lparr>match_id = elementId @ ''-'' @ string_of_nat (length ms),
                     element = el,
                     match_text = take (e - index) (drop index text),
                     startIndex = int index,
                     endIndex = int index + int (e - index)\<rparr>]))"

declare exec_loop.simps [code]

text \<open>
  \<^verbatim>\<open>findTextMatches\<close>: \<open>None\<close> if \<^verbatim>\<open>new RegExp\<close> throws or the loop does not return.
\<close>

definition findTextMatches ::
  "node \<Rightarrow> string \<Rightarrow> SearchOptions \<Rightarrow> string \<Rightarrow> node SearchMatch list option" where
  "findTextMatches el q opts elementId =
     (case createSearchRegex q opts of
        None \<Rightarrow> None
      | Some regex \<Rightarrow> exec_loop regex (extractTextContent el) el elementId 0 [])"

subsection \<open>removeHighlights\<close>

fun is_highlight :: "node \<Rightarrow> bool" where
  "is_highlight (Elem tag cls attrs children) = (''search-highlight'' \<in> set cls)"
| "is_highlight (TextN s) = False"
| "is_highlight (Comment s) = False"

text \<open>
  \<^verbatim>\<open>Node.normalize()\<close> on a list of children: empty text nodes go, adjacent text nodes
  become one; \<open>normalize_node\<close> does so in the whole subtree.
\<close>

fun merge_text :: "node list \<Rightarrow> node list" where
  "merge_text [] = []"
| "merge_text (TextN s # rest) =
     (if s = [] then merge_text rest
      else case merge_text rest of
             TextN t # r \<Rightarrow> TextN (s @ t) # r
           | r \<Rightarrow> TextN s # r)"
| "merge_text (n # rest) = n # merge_text rest"

fun normalize_node :: "node \<Rightarrow> node" where
  "normalize_node (Elem tag cls attrs children) = Elem tag cls attrs (merge_text (map normalize_node children))"
| "normalize_node (TextN s) = TextN s"
| "normalize_node (Comment s) = Comment s"

text \<open>
  \<^verbatim>\<open>removeHighlights(element)\<close>, on the subtree of \<^verbatim>\<open>element\<close>.
  \<^verbatim>\<open>querySelectorAll('.search-highlight')\<close> lists the descendants with the class in document
  order, and each is replaced in its parent by a text node of its \<^verbatim>\<open>textContent\<close>, after
  which the parent is normalized. An element of the list that lies inside an earlier one
  is replaced in a subtree that has already left the document, so in the document the
  outermost elements with the class are the ones replaced. \<^verbatim>\<open>normalize\<close> acts on the whole
  subtree of the parent; a replacement made later, deeper in that subtree, is followed by
  the normalization of its own parent, so that at the end the subtree of every parent of
  a replaced element is normalized. The root itself is never in the list.
\<close>

fun removeHighlights :: "node \<Rightarrow> node" where
  "removeHighlights (Elem tag cls attrs children) =
     (let replaced = map (\<lambda>n. if is_highlight n then TextN (textContent n)
                               else removeHighlights n) children
      in Elem tag cls attrs
           (if list_ex is_highlight children then merge_text (map normalize_node replaced)
            else replaced))"
| "removeHighlights (TextN s) = TextN s"
| "removeHighlights (Comment s) = Comment s"

subsection \<open>highlightMatches\<close>

text \<open>
  \<^verbatim>\<open>String.prototype.substring\<close>: both arguments are clamped to \<open>[0, length]\<close> and swapped
  if the first is the larger one.
\<close>

definition clamp_index :: "string \<Rightarrow> int \<Rightarrow> nat" where
  "clamp_index s i = nat (max 0 (min i (int (length s))))"

definition substring :: "string \<Rightarrow> int \<Rightarrow> int \<Rightarrow> string" where
  "substring s a b =
     (let x = clamp_index s a; y = clamp_index s b
      in take (max x y - min x y) (drop (min x y) s))"

definition substring_from :: "string \<Rightarrow> int \<Rightarrow> string" where
  "substring_from s a = drop (clamp_index s a) s"

text \<open>\<^verbatim>\<open>Array.prototype.findIndex\<close>: \<open>-1\<close> when no element satisfies the predicate.\<close>

fun findIndex :: "('a \<Rightarrow> bool) \<Rightarrow> 'a list \<Rightarrow> int" where
  "findIndex P [] = -1"
| "findIndex P (x # xs) =
     (if P x then 0 else (let r = findIndex P xs in if r < 0 then -1 else r + 1))"

text \<open>
  \<^verbatim>\<open>[...matches].sort((a, b) => b.startIndex - a.startIndex)\<close>: a stable sort, descending
  in \<^verbatim>\<open>startIndex\<close>.
\<close>

definition sortedMatches :: "'e SearchMatch list \<Rightarrow> 'e SearchMatch list" where
  "sortedMatches ms = sort_key (\<lambda>m. - startIndex m) ms"

definition nodeMatches :: "'e SearchMatch list \<Rightarrow> int \<Rightarrow> int \<Rightarrow> 'e SearchMatch list" where
  "nodeMatches ms nodeStart nodeEnd =
     filter (\<lambda>m. startIndex m \<ge> nodeStart \<and> endIndex m \<le> nodeEnd) (sortedMatches ms)"

text \<open>The highlight span for a match: class, text content, then the attribute, then the class of the current match.\<close>

definition highlight_span ::
  "'e SearchMatch list \<Rightarrow> int option \<Rightarrow> 'e SearchMatch \<Rightarrow> string \<Rightarrow> node" where
  "highlight_span ms currentMatchIndex m matchText =
     Elem ''span''
       (''search-highlight'' #
          (case currentMatchIndex of
             None \<Rightarrow> []
           | Some cur \<Rightarrow>
               if findIndex (\<lambda>x. match_id x = match_id m) ms = cur
               then [''search-highlight-current''] else []))
       [(''data-search-match'', match_id m)]
       (if matchText = [] then [] else [TextN matchText])"

text \<open>
  The body of \<^verbatim>\<open>for (const textNode of textNodes)\<close> for one text node that starts at
  offset \<open>nodeStart\<close>: the nodes that stand in its place afterwards. The inner loop over
  \<^verbatim>\<open>nodeMatches.reverse()\<close> ends with \<^verbatim>\<open>break\<close> in its first round, so only the first
  element of the reversed list is processed. A text node reached by the walker below
  \<^verbatim>\<open>element\<close> has a parent, so \<^verbatim>\<open>if (!parent) continue\<close> is never taken.
\<close>

definition highlight_text_node ::
  "'e SearchMatch list \<Rightarrow> int option \<Rightarrow> int \<Rightarrow> string \<Rightarrow> node list" where
  "highlight_text_node ms currentMatchIndex nodeStart nodeText =
     (let nodeEnd = nodeStart + int (length nodeText)
      in case rev (nodeMatches ms nodeStart nodeEnd) of
           [] \<Rightarrow> [TextN nodeText]
         | m # others \<Rightarrow>
             (let relativeStart = startIndex m - nodeStart;
                  relativeEnd = endIndex m - nodeStart;
                  beforeText = substring nodeText 0 relativeStart;
                  matchText = substring nodeText relativeStart relativeEnd;
                  afterText = substring_from nodeText relativeEnd
              in (if beforeText \<noteq> [] then [TextN beforeText] else []) @
                 [highlight_span ms currentMatchIndex m matchText] @
                 (if afterText \<noteq> [] then [TextN afterText] else [])))"

text \<open>
  The walk over the text nodes in document order with \<^verbatim>\<open>currentTextOffset\<close>. The text
  nodes are collected before any of them is replaced, and each is replaced where it
  stands, so the walk is a recursion over the tree that returns the new children and the
  offset after them.
\<close>

fun highlight_node ::
      "'e SearchMatch list \<Rightarrow> int option \<Rightarrow> int \<Rightarrow> node \<Rightarrow> node list \<times> int"
  and highlight_nodes ::
      "'e SearchMatch list \<Rightarrow> int option \<Rightarrow> int \<Rightarrow> node list \<Rightarrow> node list \<times> int" where
  "highlight_node ms cur off (TextN s) =
     (highlight_text_node ms cur off s, off + int (length s))"
| "highlight_node ms cur off (Comment s) = ([Comment s], off)"
| "highlight_node ms cur off (Elem tag cls attrs children) =
     (let (children', off') = highlight_nodes ms cur off children
      in ([Elem tag cls attrs children'], off'))"
| "highlight_nodes ms cur off [] = ([], off)"
| "highlight_nodes ms cur off (n # ns) =
     (let (r, off1) = highlight_node ms cur off n;
          (rs, off2) = highlight_nodes ms cur off1 ns
      in (r @ rs, off2))"

definition highlightMatches :: "node \<Rightarrow> 'e SearchMatch list \<Rightarrow> int option \<Rightarrow> node" where
  "highlightMatches el ms currentMatchIndex =
     (let cleaned = removeHighlights el
      in if length ms = 0 then cleaned
         else case cleaned of
                Elem tag cls attrs children \<Rightarrow>
                  Elem tag cls attrs (fst (highlight_nodes ms currentMatchIndex 0 children))
              | other \<Rightarrow> other)"

text \<open>
  What can be read off a tree: for each element with the class \<^verbatim>\<open>search-highlight\<close>, in
  document order, the value of its \<^verbatim>\<open>data-search-match\<close> attribute and the text it wraps.
  \<open>markers\<close> looks at a node and below it, \<open>decorations\<close> below an element, as
  \<^verbatim>\<open>element.querySelectorAll('.search-highlight')\<close> does.
\<close>

fun attr_value :: "string \<Rightarrow> (string \<times> string) list \<Rightarrow> string" where
  "attr_value k [] = []"
| "attr_value k ((k', v) # rest) = (if k = k' then v else attr_value k rest)"

fun markers :: "node \<Rightarrow> (string \<times> string) list" where
  "markers (Elem tag cls attrs children) =
     (if ''search-highlight'' \<in> set cls
      then [(attr_value ''data-search-match'' attrs, concat (map textContent children))]
      else []) @ concat (map markers children)"
| "markers (TextN s) = []"
| "markers (Comment s) = []"

fun decorations :: "node \<Rightarrow> (string \<times> string) list" where
  "decorations (Elem tag cls attrs children) = concat (map markers children)"
| "decorations (TextN s) = []"
| "decorations (Comment s) = []"

text \<open>
  The text nodes at and below a node in document order, and the leaf table of an element:
  the text nodes below it, each with the offset at which it starts in their concatenation.
\<close>

fun textNodes :: "node \<Rightarrow> string list" where
  "textNodes (TextN s) = [s]"
| "textNodes (Comment s) = []"
| "textNodes (Elem tag cls attrs children) = concat (map textNodes children)"

fun leaf_offsets :: "int \<Rightarrow> string list \<Rightarrow> (int \<times> string) list" where
  "leaf_offsets off [] = []"
| "leaf_offsets off (t # ts) = (off, t) # leaf_offsets (off + int (length t)) ts"

fun leaf_table :: "node \<Rightarrow> (int \<times> string) list" where
  "leaf_table (Elem tag cls attrs children) = leaf_offsets 0 (concat (map textNodes children))"
| "leaf_table (TextN s) = []"
| "leaf_table (Comment s) = []"

section \<open>The terminal adapter (useTerminalSearch)\<close>

record ISearchOptions = SearchOptions +
  regex :: bool

datatype addon_call =
    ClearDecorations
  | FindNext string ISearchOptions
  | FindPrevious string ISearchOptions

text \<open>
  The adapter's refs: whether \<^verbatim>\<open>terminalRef.current\<close> and \<^verbatim>\<open>searchAddonRef.current\<close> are
  set, and the calls made on the search addon so far.
\<close>

record terminal_backend =
  terminalMounted :: bool
  addonLoaded :: bool
  addonCalls :: "addon_call list"

text \<open>
  \<^verbatim>\<open>onSearch\<close> of the adapter. The widget's answer to \<^verbatim>\<open>findNext\<close> is the parameter
  \<open>found\<close>; \<open>None\<close> is a call that throws, which the adapter catches.
  \<^verbatim>\<open>clearDecorations\<close> is taken to return.
\<close>

definition terminal_onSearch ::
  "(string \<Rightarrow> ISearchOptions \<Rightarrow> bool option) \<Rightarrow> 'e \<Rightarrow>
   string \<Rightarrow> SearchOptions \<Rightarrow> terminal_backend \<Rightarrow> 'e SearchMatch list \<times> terminal_backend" where
  "terminal_onSearch found terminalElement q opts tb =
     (if \<not> terminalMounted tb \<or> \<not> addonLoaded tb \<or> js_trim q = [] then ([], tb)
      else
        let so = \<lparr>caseSensitive = caseSensitive opts, wholeWord = wholeWord opts, regex = False\<rparr>;
            tb' = tb\<lparr>addonCalls := addonCalls tb @ [ClearDecorations, FindNext q so]\<rparr>
        in case found q so of
             Some True \<Rightarrow>
               ([\<lparr>match_id = ''terminal-match-0'', element = terminalElement,
                  match_text = q, startIndex = 0, endIndex = int (length q)\<rparr>], tb')
           | _ \<Rightarrow> ([], tb'))"

definition terminal_onNavigate ::
  "'e SearchMatch option \<Rightarrow> direction \<Rightarrow> terminal_backend \<Rightarrow> terminal_backend" where
  "terminal_onNavigate m dir tb =
     (if \<not> addonLoaded tb then tb
      else case m of
             None \<Rightarrow> tb
           | Some mt \<Rightarrow>
               (case dir of
                  Next \<Rightarrow>
                    tb\<lparr>addonCalls := addonCalls tb @
                         [FindNext (match_text mt)
                            \<lparr>caseSensitive = False, wholeWord = False, regex = False\<rparr>]\<rparr>
                | Prev \<Rightarrow>
                    tb\<lparr>addonCalls := addonCalls tb @
                         [FindPrevious (match_text mt)
                            \<lparr>caseSensitive = False, wholeWord = False, regex = False\<rparr>]\<rparr>))"

definition terminal_onClose :: "terminal_backend \<Rightarrow> terminal_backend" where
  "terminal_onClose tb =
     (if addonLoaded tb then tb\<lparr>addonCalls := addonCalls tb @ [ClearDecorations]\<rparr> else tb)"

definition terminal_callbacks ::
  "(string \<Rightarrow> ISearchOptions \<Rightarrow> bool option) \<Rightarrow> 'e \<Rightarrow> ('e, terminal_backend) UseSearchOptions" where
  "terminal_callbacks found terminalElement =
     \<lparr>onSearch = Some (terminal_onSearch found terminalElement),
      onNavigate = Some terminal_onNavigate,
      onClose = Some terminal_onClose\<rparr>"

text \<open>
  \<^verbatim>\<open>searchInTerminal\<close> and \<^verbatim>\<open>navigateInTerminal\<close>. The hook returns
  \<^verbatim>\<open>{...search, navigateToMatch: navigateInTerminal, searchInTerminal}\<close>, so the
  \<^verbatim>\<open>navigateToMatch\<close> it exports is \<open>navigateInTerminal\<close>; \<open>navigateToMatch\<close> of
  \<^verbatim>\<open>useSearch\<close> stays in use inside that hook, in its key handler. The closure of
  \<^verbatim>\<open>searchInTerminal\<close> depends on \<^verbatim>\<open>search.searchState.caseSensitive\<close> and
  \<^verbatim>\<open>search.searchState.wholeWord\<close>, so it reads the flags of the current state. The
  widget's answers to \<^verbatim>\<open>findNext\<close> and \<^verbatim>\<open>findPrevious\<close> are the two parameters; \<open>None\<close>
  is a call that throws, which is caught and gives \<^verbatim>\<open>false\<close>.
\<close>

definition searchInTerminal ::
  "(string \<Rightarrow> ISearchOptions \<Rightarrow> bool option) \<Rightarrow> (string \<Rightarrow> ISearchOptions \<Rightarrow> bool option) \<Rightarrow>
   string \<Rightarrow> direction \<Rightarrow> ('e, terminal_backend) hook \<Rightarrow> bool \<times> ('e, terminal_backend) hook" where
  "searchInTerminal foundNext foundPrevious q dir h =
     (if \<not> addonLoaded (backend h) \<or> js_trim q = [] then (False, h)
      else
        let searchOptions =
              \<lparr>caseSensitive = caseSensitive (searchState h),
               wholeWord = wholeWord (searchState h), regex = False\<rparr>
        in case dir of
             Next \<Rightarrow>
               (case foundNext q searchOptions of None \<Rightarrow> False | Some b \<Rightarrow> b,
                h\<lparr>backend := (backend h)
                     \<lparr>addonCalls := addonCalls (backend h) @ [FindNext q searchOptions]\<rparr>\<rparr>)
           | Prev \<Rightarrow>
               (case foundPrevious q searchOptions of None \<Rightarrow> False | Some b \<Rightarrow> b,
                h\<lparr>backend := (backend h)
                     \<lparr>addonCalls := addonCalls (backend h) @ [FindPrevious q searchOptions]\<rparr>\<rparr>))"

definition navigateInTerminal ::
  "(string \<Rightarrow> ISearchOptions \<Rightarrow> bool option) \<Rightarrow> (string \<Rightarrow> ISearchOptions \<Rightarrow> bool option) \<Rightarrow>
   direction \<Rightarrow> ('e, terminal_backend) hook \<Rightarrow> ('e, terminal_backend) hook" where
  "navigateInTerminal foundNext foundPrevious dir h =
     (if js_trim (query (searchState h)) = [] then h
      else snd (searchInTerminal foundNext foundPrevious (query (searchState h)) dir h))"

section \<open>Notions used in the statements\<close>

text \<open>The atoms a search pattern is expected to compile to: the query's characters, between two \<^verbatim>\<open>\b\<close> for whole words.\<close>

definition search_atoms :: "string \<Rightarrow> SearchOptions \<Rightarrow> rx_atom list" where
  "search_atoms q opts =
     (if wholeWord opts then WordBoundary # map PatternChar q @ [WordBoundary]
      else map PatternChar q)"

text \<open>
  The match of a list that starts first: the least \<open>startIndex\<close>, and of several matches
  with that \<open>startIndex\<close> the last one of the list. \<open>first_in_node\<close> is that match among
  those whose span lies within the offsets \<open>nodeStart\<close> to \<open>nodeEnd\<close> of a text node.
\<close>

fun pick_first :: "'e SearchMatch list \<Rightarrow> 'e SearchMatch option" where
  "pick_first [] = None"
| "pick_first (m # ms) =
     (case pick_first ms of
        None \<Rightarrow> Some m
      | Some m' \<Rightarrow> if startIndex m < startIndex m' then Some m else Some m')"

definition first_in_node :: "'e SearchMatch list \<Rightarrow> int \<Rightarrow> int \<Rightarrow> 'e SearchMatch option" where
  "first_in_node ms nodeStart nodeEnd =
     pick_first (filter (\<lambda>m. nodeStart \<le> startIndex m \<and> endIndex m \<le> nodeEnd) ms)"

text \<open>The one decoration a text node that starts at \<open>nodeStart\<close> gets, if any.\<close>

definition leaf_decoration :: "'e SearchMatch list \<Rightarrow> int \<times> string \<Rightarrow> (string \<times> string) list" where
  "leaf_decoration ms leaf =
     (case leaf of (nodeStart, nodeText) \<Rightarrow>
        (case first_in_node ms nodeStart (nodeStart + int (length nodeText)) of
           None \<Rightarrow> []
         | Some m \<Rightarrow>
             [(match_id m,
               substring nodeText (startIndex m - nodeStart) (endIndex m - nodeStart))]))"



text \<open>
  \<open>touched\<close>: among the children of an element, counted from the offset \<open>off\<close>, there
  is a text node with a match within it. \<open>coalesce_node\<close> normalizes the subtree of every
  element that has such a child and leaves the rest of the tree as it is.
\<close>

fun touched :: "'e SearchMatch list \<Rightarrow> int \<Rightarrow> node list \<Rightarrow> bool" where
  "touched ms off [] = False"
| "touched ms off (TextN s # ns) =
     (first_in_node ms off (off + int (length s)) \<noteq> None \<or>
      touched ms (off + int (length s)) ns)"
| "touched ms off (n # ns) = touched ms (off + int (length (textContent n))) ns"

fun coalesce_node :: "'e SearchMatch list \<Rightarrow> int \<Rightarrow> node \<Rightarrow> node"
  and coalesce_nodes :: "'e SearchMatch list \<Rightarrow> int \<Rightarrow> node list \<Rightarrow> node list" where
  "coalesce_node ms off (Elem tag cls attrs children) =
     Elem tag cls attrs
       (if touched ms off children then merge_text (map normalize_node children)
        else coalesce_nodes ms off children)"
| "coalesce_node ms off (TextN s) = TextN s"
| "coalesce_node ms off (Comment s) = Comment s"
| "coalesce_nodes ms off [] = []"
| "coalesce_nodes ms off (n # ns) =
     coalesce_node ms off n # coalesce_nodes ms (off + int (length (textContent n))) ns"

text \<open>What \<open>removeHighlights\<close> puts in the place of a child.\<close>

definition replace_child :: "node \<Rightarrow> node" where
  "replace_child n = (if is_highlight n then TextN (textContent n) else removeHighlights n)"


text \<open>No \<^verbatim>\<open>script\<close> or \<^verbatim>\<open>style\<close> element below a node.\<close>

fun script_style_free :: "node \<Rightarrow> bool" where
  "script_style_free (Elem tag cls attrs children) =
     list_all (\<lambda>c. \<not> is_script_style c \<and> script_style_free c) children"
| "script_style_free (TextN s) = True"
| "script_style_free (Comment s) = True"

text \<open>The addon call that navigation in a direction makes for a text.\<close>

definition navigate_call :: "direction \<Rightarrow> string \<Rightarrow> addon_call" where
  "navigate_call dir t =
     (case dir of
        Next \<Rightarrow> FindNext t \<lparr>caseSensitive = False, wholeWord = False, regex = False\<rparr>
      | Prev \<Rightarrow> FindPrevious t \<lparr>caseSensitive = False, wholeWord = False, regex = False\<rparr>)"

text \<open>The addon call that the exported navigation makes in a state: the query, with the flags of that state.\<close>

definition exported_navigate_call :: "direction \<Rightarrow> SearchState \<Rightarrow> addon_call" where
  "exported_navigate_call dir st =
     (case dir of
        Next \<Rightarrow> FindNext (query st)
                 \<lparr>caseSensitive = caseSensitive st, wholeWord = wholeWord st, regex = False\<rparr>
      | Prev \<Rightarrow> FindPrevious (query st)
                 \<lparr>caseSensitive = caseSensitive st, wholeWord = wholeWord st, regex = False\<rparr>)"

section \<open>Sample inputs\<close>

text \<open>
  A backend for examples: its search callback returns what \<open>findTextMatches\<close> finds in
  one element, numbered as the first searchable element of a container
  (\<^verbatim>\<open>search-element-0\<close>); it keeps no state and has no other callback.
\<close>

definition element_callbacks :: "node \<Rightarrow> (node, unit) UseSearchOptions" where
  "element_callbacks el =
     \<lparr>onSearch = Some (\<lambda>q opts b.
        (case findTextMatches el q opts ''search-element-0'' of
           None \<Rightarrow> []
         | Some ms \<Rightarrow> ms, b)),
      onNavigate = None, onClose = None\<rparr>"

definition sample_element :: node where
  "sample_element = Elem ''p'' [''text-text-primary''] [] [TextN ''foo FOO Foo'']"

definition cats_element :: node where
  "cats_element = Elem ''p'' [''text-text-primary''] [] [TextN ''cats catalog cat'']"

definition sample_hook :: "(node, unit) hook" where
  "sample_hook = run (element_callbacks sample_element) [Open, SetQuery ''Foo''] (initialHook ())"

definition sample_events :: "event list" where
  "sample_events =
     [Open, SetQuery ''Foo'', Navigate Next, ToggleWholeWord, Navigate Prev, Timeout,
      Navigate Prev]"

text \<open>An element with two text nodes, \<open>ab\<close> and \<open>cd\<close>, and three matches given for it.\<close>

definition two_leaf_element :: node where
  "two_leaf_element =
     Elem ''div'' [''text-text-primary''] [] [TextN ''ab'', Elem ''b'' [] [] [TextN ''cd'']]"

definition three_matches :: "unit SearchMatch list" where
  "three_matches =
     [\<lparr>match_id = ''e-0'', element = (), match_text = ''a'', startIndex = 0, endIndex = 1\<rparr>,
      \<lparr>match_id = ''e-1'', element = (), match_text = ''b'', startIndex = 1, endIndex = 2\<rparr>,
      \<lparr>match_id = ''e-2'', element = (), match_text = ''cd'', startIndex = 2, endIndex = 4\<rparr>]"

text \<open>The same two text nodes after a \<^verbatim>\<open>style\<close> element with one character of text.\<close>

definition style_element :: node where
  "style_element =
     Elem ''div'' [''rich-output-markdown''] []
       [Elem ''style'' [] [] [TextN ''x''], TextN ''ab'', Elem ''b'' [] [] [TextN ''cd'']]"

definition plain_options :: SearchOptions where
  "plain_options = \<lparr>caseSensitive = False, wholeWord = False\<rparr>"

text \<open>A mounted terminal with its addon loaded, and a widget that finds every query.\<close>

definition sample_terminal :: terminal_backend where
  "sample_terminal = \<lparr>terminalMounted = True, addonLoaded = True, addonCalls = []\<rparr>"

definition always_found :: "string \<Rightarrow> ISearchOptions \<Rightarrow> bool option" where
  "always_found q so = Some True"

text \<open>The terminal hook after a search for \<open>ls\<close> and a toggle of case sensitivity with its scheduled search.\<close>

definition toggled_terminal_hook :: "(unit, terminal_backend) hook" where
  "toggled_terminal_hook =
     run (terminal_callbacks always_found ())
       [Open, SetQuery ''ls'', ToggleCaseSensitive, Timeout] (initialHook sample_terminal)"

definition sample_terminal_hook :: "(unit, terminal_backend) hook" where
  "sample_terminal_hook =
     run (terminal_callbacks always_found ()) [Open, SetQuery ''ls''] (initialHook sample_terminal)"

section \<open>Properties of the state machine\<close>

lemma counters_ok_performSearch: "counters_ok (performSearch cb captured q h)"
  by (auto simp: counters_ok_def performSearch_def Let_def Suc_le_eq split: prod.splits)

lemma counters_ok_navigateToMatch:
  "counters_ok h \<Longrightarrow> counters_ok (navigateToMatch cb d h)"
  by (cases d) (auto simp: counters_ok_def navigateToMatch_def Let_def split: if_splits)

lemma counters_ok_toggle:
  "counters_ok h \<Longrightarrow> counters_ok (toggleCaseSensitive h)"
  "counters_ok h \<Longrightarrow> counters_ok (toggleWholeWord h)"
  by (auto simp: counters_ok_def toggleCaseSensitive_def toggleWholeWord_def Let_def)

lemma counters_ok_runTimeout: "counters_ok h \<Longrightarrow> counters_ok (runTimeout cb h)"
  by (cases "pending h") (auto simp: runTimeout_def counters_ok_performSearch)

lemma counters_ok_step: "counters_ok h \<Longrightarrow> counters_ok (step cb e h)"
proof (cases e)
  case Open
  assume "counters_ok h"
  then show ?thesis using Open by (auto simp: counters_ok_def openSearch_def)
next
  case Close
  show ?thesis using Close by (simp add: counters_ok_def closeSearch_def)
next
  case (SetQuery q)
  show ?thesis using SetQuery by (simp add: setQuery_def counters_ok_performSearch)
next
  case (Navigate d)
  assume "counters_ok h"
  then show ?thesis using Navigate by (simp add: counters_ok_navigateToMatch)
next
  case ToggleCaseSensitive
  assume "counters_ok h"
  then show ?thesis using ToggleCaseSensitive by (simp add: counters_ok_toggle)
next
  case ToggleWholeWord
  assume "counters_ok h"
  then show ?thesis using ToggleWholeWord by (simp add: counters_ok_toggle)
next
  case Timeout
  assume "counters_ok h"
  then show ?thesis using Timeout by (simp add: counters_ok_runTimeout)
qed

lemma counters_ok_run: "counters_ok h \<Longrightarrow> counters_ok (run cb es h)"
  by (induction es arbitrary: h) (auto intro: counters_ok_step)

lemma counters_ok_initial: "counters_ok (initialHook b)"
  by (simp add: counters_ok_def initialHook_def initialSearchState_def)


lemma navigate_matches [simp]: "matches (navigateToMatch cb d h) = matches h"
  by (simp add: navigateToMatch_def Let_def)

lemma navigate_next_current:
  "matches h \<noteq> [] \<Longrightarrow>
   currentMatch (searchState (navigateToMatch cb Next h)) =
     (if currentMatch (searchState h) \<ge> length (matches h) then 1
      else currentMatch (searchState h) + 1)"
  by (simp add: navigateToMatch_def Let_def)

lemma navigate_prev_current:
  "matches h \<noteq> [] \<Longrightarrow>
   currentMatch (searchState (navigateToMatch cb Prev h)) =
     (if currentMatch (searchState h) \<le> 1 then length (matches h)
      else currentMatch (searchState h) - 1)"
  by (simp add: navigateToMatch_def Let_def)

lemma navigate_next_iter:
  assumes "matches h \<noteq> []" "1 \<le> currentMatch (searchState h)"
    "currentMatch (searchState h) \<le> length (matches h)"
  shows "matches ((navigateToMatch cb Next ^^ k) h) = matches h \<and>
         currentMatch (searchState ((navigateToMatch cb Next ^^ k) h)) =
           (currentMatch (searchState h) - 1 + k) mod length (matches h) + 1"
proof (induction k)
  case 0
  show ?case using assms by simp
next
  case (Suc k)
  let ?N = "length (matches h)"
  let ?r = "(currentMatch (searchState h) - 1 + k) mod ?N"
  let ?hk = "(navigateToMatch cb Next ^^ k) h"
  have N: "0 < ?N" using assms(1) by simp
  have r: "?r < ?N" using N by simp
  have m: "matches ?hk = matches h" and c: "currentMatch (searchState ?hk) = ?r + 1"
    using Suc.IH by simp_all
  have "currentMatch (searchState (navigateToMatch cb Next ?hk)) =
          (if ?r + 1 \<ge> ?N then 1 else ?r + 2)"
    using navigate_next_current[of ?hk cb] assms(1) m c by simp
  also have "\<dots> = Suc ?r mod ?N + 1"
    using r by (auto simp: mod_Suc)
  also have "Suc ?r mod ?N = (currentMatch (searchState h) - 1 + Suc k) mod ?N"
    by (simp add: mod_Suc_eq)
  finally show ?case using m by simp
qed

lemma prev_mod:
  fixes r N :: nat
  assumes "0 < N" "r < N"
  shows "(if r = 0 then N else r) = (r + (N - 1)) mod N + 1"
proof (cases "r = 0")
  case True
  then show ?thesis using assms by simp
next
  case False
  then have "r + (N - 1) = (r - 1) + N" using assms by arith
  then have "(r + (N - 1)) mod N = (r - 1) mod N" by simp
  also have "\<dots> = r - 1" using assms by simp
  finally show ?thesis using False by simp
qed

lemma navigate_prev_iter:
  assumes "matches h \<noteq> []" "1 \<le> currentMatch (searchState h)"
    "currentMatch (searchState h) \<le> length (matches h)"
  shows "matches ((navigateToMatch cb Prev ^^ k) h) = matches h \<and>
         currentMatch (searchState ((navigateToMatch cb Prev ^^ k) h)) =
           (currentMatch (searchState h) - 1 + k * (length (matches h) - 1))
              mod length (matches h) + 1"
proof (induction k)
  case 0
  show ?case using assms by simp
next
  case (Suc k)
  let ?N = "length (matches h)"
  let ?a = "currentMatch (searchState h) - 1 + k * (?N - 1)"
  let ?r = "?a mod ?N"
  let ?hk = "(navigateToMatch cb Prev ^^ k) h"
  have N: "0 < ?N" using assms(1) by simp
  have r: "?r < ?N" using N by simp
  have m: "matches ?hk = matches h" and c: "currentMatch (searchState ?hk) = ?r + 1"
    using Suc.IH by simp_all
  have "currentMatch (searchState (navigateToMatch cb Prev ?hk)) =
          (if ?r = 0 then ?N else ?r)"
    using navigate_prev_current[of ?hk cb] assms(1) m c by simp
  also have "\<dots> = (?r + (?N - 1)) mod ?N + 1"
    using prev_mod[OF N r] .
  also have "(?r + (?N - 1)) mod ?N = (?a + (?N - 1)) mod ?N"
    by (simp add: mod_add_left_eq)
  also have "?a + (?N - 1) = currentMatch (searchState h) - 1 + Suc k * (?N - 1)"
    by simp
  finally show ?case using m by simp
qed


text \<open>
  C4. In every state the machine reaches with \<open>totalMatches = N > 0\<close>, \<open>navigateToMatch\<close>
  follows the wraparound rule: next maps \<open>currentMatch = N\<close> to \<open>1\<close> and any other value
  to \<open>currentMatch + 1\<close>; prev maps \<open>currentMatch = 1\<close> to \<open>N\<close> and any other value to
  \<open>currentMatch - 1\<close>. From \<open>currentMatch = 1\<close>, \<open>N\<close> steps of next lead back to \<open>1\<close>,
  and so do \<open>N\<close> steps of prev. With an empty match list navigation changes nothing.
\<close>

theorem navigate_wraparound:
  "(matches h' = [] \<longrightarrow> navigateToMatch cb d h' = h') \<and>
   (h = run cb es (initialHook b) \<and> totalMatches (searchState h) = N \<and> 0 < N \<longrightarrow>
      currentMatch (searchState (navigateToMatch cb Next h)) =
        (if currentMatch (searchState h) = N then 1 else currentMatch (searchState h) + 1) \<and>
      currentMatch (searchState (navigateToMatch cb Prev h)) =
        (if currentMatch (searchState h) = 1 then N else currentMatch (searchState h) - 1) \<and>
      (currentMatch (searchState h) = 1 \<longrightarrow>
         currentMatch (searchState ((navigateToMatch cb Next ^^ N) h)) = 1 \<and>
         currentMatch (searchState ((navigateToMatch cb Prev ^^ N) h)) = 1))"
proof (intro conjI impI)
  assume "matches h' = []"
  then show "navigateToMatch cb d h' = h'" by (simp add: navigateToMatch_def)
next
  assume a: "h = run cb es (initialHook b) \<and> totalMatches (searchState h) = N \<and> 0 < N"
  then have "counters_ok h" by (simp add: counters_ok_run counters_ok_initial)
  with a have ne: "matches h \<noteq> []" and len: "length (matches h) = N"
    and lo: "1 \<le> currentMatch (searchState h)" and hi: "currentMatch (searchState h) \<le> N"
    by (auto simp: counters_ok_def split: if_splits)
  show "currentMatch (searchState (navigateToMatch cb Next h)) =
        (if currentMatch (searchState h) = N then 1 else currentMatch (searchState h) + 1)"
    using navigate_next_current[OF ne, of cb] len hi by auto
  show "currentMatch (searchState (navigateToMatch cb Prev h)) =
        (if currentMatch (searchState h) = 1 then N else currentMatch (searchState h) - 1)"
    using navigate_prev_current[OF ne, of cb] len lo by auto
  assume one: "currentMatch (searchState h) = 1"
  show "currentMatch (searchState ((navigateToMatch cb Next ^^ N) h)) = 1"
    using navigate_next_iter[OF ne, where k=N and cb=cb] one len a by simp
  show "currentMatch (searchState ((navigateToMatch cb Prev ^^ N) h)) = 1"
    using navigate_prev_iter[OF ne, where k=N and cb=cb] one len a by simp
qed

lemma sample_hook_state:
  "searchState sample_hook =
     \<lparr>caseSensitive = False, wholeWord = False,
      isOpen = True, query = ''Foo'', currentMatch = 1, totalMatches = 3\<rparr>"
  by code_simp

theorem navigate_wraparound_witness:
  "currentMatch (searchState (navigateToMatch (element_callbacks sample_element) Next sample_hook)) = 2 \<and>
   currentMatch (searchState (navigateToMatch (element_callbacks sample_element) Prev sample_hook)) = 3 \<and>
   currentMatch (searchState
      ((navigateToMatch (element_callbacks sample_element) Next ^^ 3) sample_hook)) = 1 \<and>
   currentMatch (searchState
      ((navigateToMatch (element_callbacks sample_element) Prev ^^ 3) sample_hook)) = 1"
proof -
  have pre: "sample_hook =
               run (element_callbacks sample_element) [Open, SetQuery ''Foo''] (initialHook ()) \<and>
             totalMatches (searchState sample_hook) = 3 \<and> (0::nat) < 3"
    by (simp add: sample_hook_state) (simp add: sample_hook_def)
  have cur: "currentMatch (searchState sample_hook) = 1"
    by (simp add: sample_hook_state)
  show ?thesis
    using navigate_wraparound
      [of undefined "element_callbacks sample_element" undefined sample_hook
          "[Open, SetQuery ''Foo'']" "()" 3] pre cur
    by simp
qed

text \<open>
  C5. After every sequence of operations (open, close, setQuery, navigate, the toggles,
  and the scheduled searches of the toggles running at any later point of the sequence)
  from the initial state: \<open>1 \<le> currentMatch \<le> totalMatches\<close> whenever
  \<open>totalMatches > 0\<close>, and \<open>currentMatch = 0\<close> exactly when \<open>totalMatches = 0\<close>.
\<close>

theorem counters_invariant:
  "(0 < totalMatches (searchState (run cb es (initialHook b))) \<longrightarrow>
      1 \<le> currentMatch (searchState (run cb es (initialHook b))) \<and>
      currentMatch (searchState (run cb es (initialHook b)))
        \<le> totalMatches (searchState (run cb es (initialHook b)))) \<and>
   (currentMatch (searchState (run cb es (initialHook b))) = 0 \<longleftrightarrow>
      totalMatches (searchState (run cb es (initialHook b))) = 0)"
proof -
  have "counters_ok (run cb es (initialHook b))"
    by (simp add: counters_ok_run counters_ok_initial)
  then show ?thesis by (auto simp: counters_ok_def split: if_splits)
qed

lemma sample_run_total:
  "totalMatches (searchState (run (element_callbacks sample_element) sample_events
     (initialHook ()))) = 3"
  by code_simp

theorem counters_invariant_witness:
  "1 \<le> currentMatch (searchState (run (element_callbacks sample_element) sample_events
          (initialHook ()))) \<and>
   currentMatch (searchState (run (element_callbacks sample_element) sample_events
          (initialHook ()))) \<le> 3"
  using counters_invariant [of "element_callbacks sample_element" sample_events "()"]
  by (simp add: sample_run_total)

lemma js_trim_blank: "js_trim q = [] \<longleftrightarrow> (\<forall>c \<in> set q. js_whitespace c)"
proof
  assume "js_trim q = []"
  then have all: "\<forall>x \<in> set (dropWhile js_whitespace q). js_whitespace x"
    by (simp add: js_trim_def dropWhile_eq_Nil_conv)
  have "dropWhile js_whitespace q = []"
  proof (rule ccontr)
    assume ne: "dropWhile js_whitespace q \<noteq> []"
    then have "\<not> js_whitespace (hd (dropWhile js_whitespace q))" by (rule hd_dropWhile)
    moreover have "hd (dropWhile js_whitespace q) \<in> set (dropWhile js_whitespace q)"
      using ne by simp
    ultimately show False using all by blast
  qed
  then show "\<forall>c \<in> set q. js_whitespace c" by (simp add: dropWhile_eq_Nil_conv)
next
  assume "\<forall>c \<in> set q. js_whitespace c"
  then have "dropWhile js_whitespace q = []" by (simp add: dropWhile_eq_Nil_conv)
  then show "js_trim q = []" by (simp add: js_trim_def del: dropWhile_eq_Nil_conv)
qed

text \<open>
  C9. For a query that trims to empty, \<open>performSearch\<close> (and \<open>setQuery\<close>, which calls it)
  returns a state, the same for every backend: the match list is empty, \<open>currentMatch\<close>
  and \<open>totalMatches\<close> are \<open>0\<close>, the query is stored as typed, and the backend's state is
  the one before the call, so no callback of the backend has run.
\<close>

theorem blank_query_short_circuit:
  "js_trim q = [] \<Longrightarrow>
   performSearch cb captured q h =
     h\<lparr>matches := [],
       searchState := (searchState h)\<lparr>query := q, currentMatch := 0, totalMatches := 0\<rparr>\<rparr> \<and>
   setQuery cb q h =
     h\<lparr>matches := [],
       searchState := (searchState h)\<lparr>query := q, currentMatch := 0, totalMatches := 0\<rparr>\<rparr> \<and>
   backend (setQuery cb q h) = backend h"
  by (simp add: performSearch_def setQuery_def)

lemma blank_sample: "js_trim [CHR '' '', CHR 0x09, CHR '' ''] = []"
  by code_simp

theorem blank_query_short_circuit_witness:
  "backend (setQuery (terminal_callbacks always_found ()) [CHR '' '', CHR 0x09, CHR '' '']
      sample_terminal_hook) = backend sample_terminal_hook \<and>
   matches (setQuery (terminal_callbacks always_found ()) [CHR '' '', CHR 0x09, CHR '' '']
      sample_terminal_hook) = [] \<and>
   totalMatches (searchState (setQuery (terminal_callbacks always_found ())
      [CHR '' '', CHR 0x09, CHR '' ''] sample_terminal_hook)) = 0"
  using blank_query_short_circuit
    [OF blank_sample, of "terminal_callbacks always_found ()" undefined sample_terminal_hook]
  by simp

subsection \<open>The toggles\<close>

lemma toggleCaseSensitive_then_timeout:
  "pending h = [] \<Longrightarrow> query (searchState h) \<noteq> [] \<Longrightarrow>
   runTimeout cb (toggleCaseSensitive h) =
     performSearch cb (currentOptions (searchState h)) (query (searchState h))
       (h\<lparr>searchState := (searchState h)\<lparr>caseSensitive := \<not> caseSensitive (searchState h)\<rparr>,
          pending := []\<rparr>)"
  by (simp add: runTimeout_def toggleCaseSensitive_def Let_def)

lemma toggleWholeWord_then_timeout:
  "pending h = [] \<Longrightarrow> query (searchState h) \<noteq> [] \<Longrightarrow>
   runTimeout cb (toggleWholeWord h) =
     performSearch cb (currentOptions (searchState h)) (query (searchState h))
       (h\<lparr>searchState := (searchState h)\<lparr>wholeWord := \<not> wholeWord (searchState h)\<rparr>,
          pending := []\<rparr>)"
  by (simp add: runTimeout_def toggleWholeWord_def Let_def)

text \<open>
  C2, evaluated. On the text \<open>foo FOO Foo\<close> with the query \<open>Foo\<close>: after
  \<open>toggleCaseSensitive\<close> and its scheduled search the flag is set, and the stored
  matches are still the three of the case-insensitive search, where a search under the
  new options finds one. On the text \<open>cats catalog cat\<close> with the query \<open>cat\<close>: after
  \<open>toggleWholeWord\<close> and its scheduled search the flag is set, and the stored matches
  are still the three of the search without it, where a search under the new options
  finds the one at offset 13.
\<close>

theorem toggles_search_with_old_options:
  "caseSensitive (searchState (run (element_callbacks sample_element)
      [Open, SetQuery ''Foo'', ToggleCaseSensitive, Timeout] (initialHook ()))) = True \<and>
   map match_text (matches (run (element_callbacks sample_element)
      [Open, SetQuery ''Foo'', ToggleCaseSensitive, Timeout] (initialHook ())))
     = [''foo'', ''FOO'', ''Foo''] \<and>
   totalMatches (searchState (run (element_callbacks sample_element)
      [Open, SetQuery ''Foo'', ToggleCaseSensitive, Timeout] (initialHook ()))) = 3 \<and>
   map_option (map match_text)
      (findTextMatches sample_element ''Foo'' \<lparr>caseSensitive = True, wholeWord = False\<rparr>
         ''search-element-0'') = Some [''Foo''] \<and>
   wholeWord (searchState (run (element_callbacks cats_element)
      [Open, SetQuery ''cat'', ToggleWholeWord, Timeout] (initialHook ()))) = True \<and>
   map startIndex (matches (run (element_callbacks cats_element)
      [Open, SetQuery ''cat'', ToggleWholeWord, Timeout] (initialHook ())))
     = [0, 5, 13] \<and>
   totalMatches (searchState (run (element_callbacks cats_element)
      [Open, SetQuery ''cat'', ToggleWholeWord, Timeout] (initialHook ()))) = 3 \<and>
   map_option (map startIndex)
      (findTextMatches cats_element ''cat'' \<lparr>caseSensitive = False, wholeWord = True\<rparr>
         ''search-element-0'') = Some [13]"
  by code_simp

section \<open>Properties of the terminal adapter\<close>

lemma terminal_onNavigate_call:
  "addonLoaded tb \<Longrightarrow>
   terminal_onNavigate (Some m) dir tb =
     tb\<lparr>addonCalls := addonCalls tb @ [navigate_call dir (match_text m)]\<rparr>"
  by (cases dir) (simp_all add: terminal_onNavigate_def navigate_call_def)

lemma navigateInTerminal_call:
  "addonLoaded (backend h) \<Longrightarrow> js_trim (query (searchState h)) \<noteq> [] \<Longrightarrow>
   backend (navigateInTerminal foundNext foundPrevious dir h) =
     (backend h)\<lparr>addonCalls := addonCalls (backend h) @
                                  [exported_navigate_call dir (searchState h)]\<rparr>"
  by (cases dir)
     (simp_all add: navigateInTerminal_def searchInTerminal_def exported_navigate_call_def Let_def)

text \<open>
  C10, at the terminal hook after a search for \<open>ls\<close> and a toggle of case sensitivity:
  the navigation the hook exports calls \<open>findNext\<close> with \<open>caseSensitive = true\<close>, the
  flag of the state, so it does not ignore the toggle.
\<close>

theorem exported_terminal_navigation_uses_current_options:
  "caseSensitive (searchState toggled_terminal_hook) = True \<and>
   addonCalls (backend (navigateInTerminal always_found always_found Next toggled_terminal_hook)) =
     addonCalls (backend toggled_terminal_hook) @
       [FindNext ''ls'' \<lparr>caseSensitive = True, wholeWord = False, regex = False\<rparr>]"
  by code_simp

text \<open>
  C10 as the code has it. With the addon loaded, the navigate callback of the terminal
  adapter makes exactly one call on it, \<open>findNext\<close> or \<open>findPrevious\<close> by the direction,
  for the text of the match, with \<open>caseSensitive = false\<close> and \<open>wholeWord = false\<close>,
  whatever the option flags are; so does \<open>navigateToMatch\<close> of \<open>useSearch\<close> over this
  adapter (the path of the key handler) in any state with matches. The navigation that
  the terminal hook exports, \<open>navigateInTerminal\<close>, does not go through the callback: with
  a query that does not trim to empty it makes one call for the query with the
  \<open>caseSensitive\<close> and \<open>wholeWord\<close> of the current state.
\<close>

theorem terminal_navigate_callback_and_export:
  "(addonLoaded tb \<longrightarrow>
      addonCalls (terminal_onNavigate (Some m) dir tb) =
        addonCalls tb @ [navigate_call dir (match_text m)]) \<and>
   (addonLoaded (backend h) \<and> matches h \<noteq> [] \<and> counters_ok h \<longrightarrow>
      (\<exists>m' \<in> set (matches h).
         addonCalls (backend (navigateToMatch (terminal_callbacks found el) dir h)) =
           addonCalls (backend h) @ [navigate_call dir (match_text m')])) \<and>
   (addonLoaded (backend h) \<and> js_trim (query (searchState h)) \<noteq> [] \<longrightarrow>
      addonCalls (backend (navigateInTerminal foundNext foundPrevious dir h)) =
        addonCalls (backend h) @ [exported_navigate_call dir (searchState h)])"
proof (intro conjI impI)
  assume "addonLoaded tb"
  then show "addonCalls (terminal_onNavigate (Some m) dir tb) =
        addonCalls tb @ [navigate_call dir (match_text m)]"
    by (simp add: terminal_onNavigate_call)
next
  assume a: "addonLoaded (backend h) \<and> matches h \<noteq> [] \<and> counters_ok h"
  define newIndex where "newIndex = currentMatch (searchState (navigateToMatch (terminal_callbacks found el) dir h))"
  have ok: "counters_ok (navigateToMatch (terminal_callbacks found el) dir h)"
    using a by (simp add: counters_ok_navigateToMatch)
  then have rng: "1 \<le> newIndex" "newIndex - 1 < length (matches h)"
    using a by (auto simp: counters_ok_def newIndex_def split: if_splits)
  have "backend (navigateToMatch (terminal_callbacks found el) dir h) =
          terminal_onNavigate (Some (matches h ! (newIndex - 1))) dir (backend h)"
    using a rng unfolding newIndex_def
    by (cases dir) (auto simp: navigateToMatch_def terminal_callbacks_def Let_def)
  then have "addonCalls (backend (navigateToMatch (terminal_callbacks found el) dir h)) =
          addonCalls (backend h) @ [navigate_call dir (match_text (matches h ! (newIndex - 1)))]"
    using a by (simp add: terminal_onNavigate_call)
  moreover have "matches h ! (newIndex - 1) \<in> set (matches h)"
    using rng by simp
  ultimately show "\<exists>m' \<in> set (matches h).
         addonCalls (backend (navigateToMatch (terminal_callbacks found el) dir h)) =
           addonCalls (backend h) @ [navigate_call dir (match_text m')]"
    by blast
next
  assume "addonLoaded (backend h) \<and> js_trim (query (searchState h)) \<noteq> []"
  then show "addonCalls (backend (navigateInTerminal foundNext foundPrevious dir h)) =
        addonCalls (backend h) @ [exported_navigate_call dir (searchState h)]"
    by (simp add: navigateInTerminal_call)
qed

lemma sample_terminal_hook_ok:
  "addonLoaded (backend sample_terminal_hook) \<and> matches sample_terminal_hook \<noteq> [] \<and>
   addonLoaded sample_terminal \<and> js_trim (query (searchState sample_terminal_hook)) \<noteq> []"
  by code_simp

lemma sample_terminal_hook_state:
  "searchState sample_terminal_hook =
     \<lparr>caseSensitive = False, wholeWord = False,
      isOpen = True, query = ''ls'', currentMatch = 1, totalMatches = 1\<rparr>"
  by code_simp

theorem terminal_navigate_callback_and_export_witness:
  "addonCalls (terminal_onNavigate
      (Some \<lparr>match_id = ''terminal-match-0'', element = (), match_text = ''ls'',
             startIndex = 0, endIndex = 2\<rparr>) Prev sample_terminal) =
     [FindPrevious ''ls'' \<lparr>caseSensitive = False, wholeWord = False, regex = False\<rparr>] \<and>
   (\<exists>m' \<in> set (matches sample_terminal_hook).
      addonCalls (backend (navigateToMatch (terminal_callbacks always_found ()) Prev
                             sample_terminal_hook)) =
        addonCalls (backend sample_terminal_hook) @
          [FindPrevious (match_text m') \<lparr>caseSensitive = False, wholeWord = False, regex = False\<rparr>]) \<and>
   addonCalls (backend (navigateInTerminal always_found always_found Prev sample_terminal_hook)) =
     addonCalls (backend sample_terminal_hook) @
       [FindPrevious ''ls'' \<lparr>caseSensitive = False, wholeWord = False, regex = False\<rparr>]"
proof -
  have ok: "counters_ok sample_terminal_hook"
    unfolding sample_terminal_hook_def by (simp only: counters_ok_run counters_ok_initial)
  have calls: "addonCalls sample_terminal = []"
    by (simp add: sample_terminal_def)
  have "addonCalls (terminal_onNavigate
      (Some \<lparr>match_id = ''terminal-match-0'', element = (), match_text = ''ls'',
             startIndex = 0, endIndex = 2\<rparr>) Prev sample_terminal) =
     addonCalls sample_terminal @ [navigate_call Prev ''ls''] \<and>
   (\<exists>m' \<in> set (matches sample_terminal_hook).
      addonCalls (backend (navigateToMatch (terminal_callbacks always_found ()) Prev
                             sample_terminal_hook)) =
        addonCalls (backend sample_terminal_hook) @ [navigate_call Prev (match_text m')]) \<and>
   addonCalls (backend (navigateInTerminal always_found always_found Prev sample_terminal_hook)) =
     addonCalls (backend sample_terminal_hook) @
       [exported_navigate_call Prev (searchState sample_terminal_hook)]"
    using terminal_navigate_callback_and_export
      [of sample_terminal
          "\<lparr>match_id = ''terminal-match-0'', element = (), match_text = ''ls'',
            startIndex = 0, endIndex = 2\<rparr>" Prev sample_terminal_hook always_found "()"
          always_found always_found]
      sample_terminal_hook_ok ok
    by simp
  then show ?thesis
    by (simp add: navigate_call_def exported_navigate_call_def calls sample_terminal_hook_state)
qed

section \<open>Properties of the pattern and of the matching loop\<close>

lemma escaped_chars_syntax_chars: "set escaped_chars = set syntax_chars"
  by (auto simp: escaped_chars_def syntax_chars_def)

lemma backslash_syntax: "backslash \<in> set syntax_chars"
  by (simp add: syntax_chars_def)

lemma b_not_syntax: "CHR ''b'' \<notin> set syntax_chars"
  by (simp add: syntax_chars_def backslash_def)

lemma parse_pattern_plain:
  "c \<notin> set syntax_chars \<Longrightarrow>
   parse_pattern (c # xs) = map_option ((#) (PatternChar c)) (parse_pattern xs)"
  using backslash_syntax by (cases xs) auto

lemma parse_pattern_identity_escape:
  "d \<in> set syntax_chars \<Longrightarrow>
   parse_pattern (backslash # d # xs) = map_option ((#) (PatternChar d)) (parse_pattern xs)"
  by simp

lemma parse_pattern_word_boundary:
  "parse_pattern (backslash # CHR ''b'' # xs) = map_option ((#) WordBoundary) (parse_pattern xs)"
  using b_not_syntax by simp

lemma parse_pattern_escapeRegExp:
  "parse_pattern (escapeRegExp q @ rest) =
     map_option ((@) (map PatternChar q)) (parse_pattern rest)"
proof (induction q)
  case Nil
  show ?case by (simp add: escapeRegExp_def option.map_ident)
next
  case (Cons c q)
  have IH: "parse_pattern (escapeRegExp q @ rest) =
     map_option ((@) (map PatternChar q)) (parse_pattern rest)"
    using Cons.IH .
  show ?case
  proof (cases "c \<in> set escaped_chars")
    case True
    then have syn: "c \<in> set syntax_chars" by (simp add: escaped_chars_syntax_chars)
    have "escapeRegExp (c # q) @ rest = backslash # c # (escapeRegExp q @ rest)"
      using True by (simp add: escapeRegExp_def)
    then show ?thesis
      using parse_pattern_identity_escape[OF syn] IH
      by (simp add: option.map_comp comp_def del: parse_pattern.simps)
  next
    case False
    then have syn: "c \<notin> set syntax_chars" by (simp add: escaped_chars_syntax_chars)
    have "escapeRegExp (c # q) @ rest = c # (escapeRegExp q @ rest)"
      using False by (simp add: escapeRegExp_def)
    then show ?thesis
      using parse_pattern_plain[OF syn] IH
      by (simp add: option.map_comp comp_def del: parse_pattern.simps)
  qed
qed

lemma parse_search_pattern:
  "parse_pattern (search_pattern q opts) = Some (search_atoms q opts)"
proof (cases "wholeWord opts")
  case True
  have "parse_pattern (escapeRegExp q @ [backslash, CHR ''b'']) =
          Some (map PatternChar q @ [WordBoundary])"
    using parse_pattern_escapeRegExp[of q "[backslash, CHR ''b'']"]
          parse_pattern_word_boundary[of "[]"]
    by (simp del: parse_pattern.simps add: parse_pattern.simps(1))
  then show ?thesis
    using True parse_pattern_word_boundary[of "escapeRegExp q @ [backslash, CHR ''b'']"]
    by (simp add: search_pattern_def search_atoms_def Let_def del: parse_pattern.simps)
next
  case False
  then show ?thesis
    using parse_pattern_escapeRegExp[of q "[]"]
    by (simp add: search_pattern_def search_atoms_def Let_def)
qed

lemma createSearchRegex_eq:
  "createSearchRegex q opts =
     Some \<lparr>atoms = search_atoms q opts, ignoreCase = \<not> caseSensitive opts\<rparr>"
  by (simp add: createSearchRegex_def RegExp_new_def parse_search_pattern search_flags_def)

lemma match_atoms_chars:
  "i \<le> length tx \<Longrightarrow>
   match_atoms ic (map PatternChar q @ rest) tx i =
     (if i + length q \<le> length tx \<and>
         (\<forall>k < length q. char_matches ic (tx ! (i + k)) (q ! k))
      then match_atoms ic rest tx (i + length q) else None)"
proof (induction q arbitrary: i)
  case Nil
  then show ?case by simp
next
  case (Cons c q)
  have split: "(\<forall>k < Suc (length q). char_matches ic (tx ! (i + k)) ((c # q) ! k)) \<longleftrightarrow>
        char_matches ic (tx ! i) c \<and> (\<forall>k < length q. char_matches ic (tx ! (Suc i + k)) (q ! k))"
    by (auto simp: less_Suc_eq_0_disj)
  show ?case
  proof (cases "i < length tx")
    case True
    then show ?thesis using Cons.IH[of "Suc i"] split by auto
  next
    case False
    then show ?thesis by auto
  qed
qed

lemma match_atoms_bounds:
  "match_atoms ic as text i = Some e \<Longrightarrow> i \<le> e \<and> (i \<le> length text \<longrightarrow> e \<le> length text)"
proof (induction as arbitrary: i)
  case Nil
  then show ?case by simp
next
  case (Cons a as)
  show ?case
  proof (cases a)
    case (PatternChar c)
    with Cons.prems have "match_atoms ic as text (Suc i) = Some e" and "i < length text"
      by (auto split: if_splits)
    with Cons.IH[of "Suc i"] show ?thesis by auto
  next
    case WordBoundary
    with Cons.prems have "match_atoms ic as text i = Some e"
      by (auto split: if_splits)
    with Cons.IH[of i] show ?thesis by auto
  qed
qed

lemma scan_bounds:
  "scan r text i = Some (j, e) \<Longrightarrow>
     i \<le> j \<and> j \<le> length text \<and> match_atoms (ignoreCase r) (atoms r) text j = Some e"
proof (induction r "text" i rule: scan.induct)
  case (1 r t i)
  show ?case
  proof (cases "i > length t")
    case True
    with "1.prems" show ?thesis by (simp add: scan.simps)
  next
    case False
    show ?thesis
    proof (cases "match_atoms (ignoreCase r) (atoms r) t i")
      case None
      with False "1.prems" have "scan r t (Suc i) = Some (j, e)"
        by (subst (asm) scan.simps) simp
      with "1.IH"[OF False None] show ?thesis by auto
    next
      case (Some e')
      with False "1.prems" show ?thesis by (subst (asm) scan.simps) auto
    qed
  qed
qed

lemma exec_loop_returns:
  "\<exists>res. exec_loop rx text el elementId lastIndex ms = Some res"
proof (induction "Suc (length text) - lastIndex" arbitrary: lastIndex ms rule: less_induct)
  case less
  show ?case
  proof (cases "regex_exec rx text lastIndex")
    case (Pair m li)
    show ?thesis
    proof (cases m)
      case None
      with Pair show ?thesis by (subst exec_loop.simps) simp
    next
      case (Some ie)
      obtain index e where ie: "ie = (index, e)" by (cases ie)
      from Pair Some ie have le: "lastIndex \<le> length text"
        and sc: "scan rx text lastIndex = Some (index, e)" and li: "li = e"
        by (auto simp: regex_exec_def split: if_splits option.splits)
      from scan_bounds[OF sc] have b: "lastIndex \<le> index" "index \<le> length text"
        and ma: "match_atoms (ignoreCase rx) (atoms rx) text index = Some e" by auto
      from match_atoms_bounds[OF ma] b have ie': "index \<le> e" "e \<le> length text" by auto
      let ?next = "if index = li then li + 1 else li"
      have "lastIndex < ?next" using b ie' li by auto
      then have "Suc (length text) - ?next < Suc (length text) - lastIndex"
        using le by auto
      from less[OF this] obtain res where
        "exec_loop rx text el elementId ?next
           (ms @ [\<lparr>match_id = elementId @ ''-'' @ string_of_nat (length ms),
                    element = el,
                    match_text = take (e - index) (drop index text),
                    startIndex = int index,
                    endIndex = int index + int (e - index)\<rparr>]) = Some res"
        by blast
      with Pair Some ie show ?thesis by (subst exec_loop.simps) simp
    qed
  qed
qed

text \<open>
  C8. \<open>findTextMatches\<close> returns for every element, query, options and element id:
  \<^verbatim>\<open>new RegExp\<close> does not throw on the escaped pattern, and each round of the loop
  moves \<^verbatim>\<open>lastIndex\<close> strictly forward (to the end of the match, or one past it for a
  match of length zero) until it passes the end of the text.
\<close>

theorem findTextMatches_terminates:
  "\<exists>ms. findTextMatches el q opts elementId = Some ms"
  by (simp add: findTextMatches_def createSearchRegex_eq exec_loop_returns)

text \<open>
  C6. \<open>createSearchRegex\<close> always yields a pattern; that pattern matches at a position
  \<open>i\<close> of a text exactly when the characters of the query stand there, one for one
  (so no character of the query acts as an operator), compared by equality if
  \<open>caseSensitive\<close> is set and up to letter case if it is not; with \<open>wholeWord\<close> it
  requires in addition a word boundary at \<open>i\<close> and at the end of the occurrence.
\<close>

theorem createSearchRegex_literal:
  "\<exists>r. createSearchRegex q opts = Some r \<and>
        ignoreCase r = (\<not> caseSensitive opts) \<and>
        (\<forall>text i e. i \<le> length text \<longrightarrow>
           match_atoms (ignoreCase r) (atoms r) text i = Some e \<longleftrightarrow>
             (e = i + length q \<and> i + length q \<le> length text \<and>
              (\<forall>k < length q. char_matches (\<not> caseSensitive opts) (text ! (i + k)) (q ! k)) \<and>
              (wholeWord opts \<longrightarrow>
                 word_boundary_at text i \<and> word_boundary_at text (i + length q))))"
proof -
  have "match_atoms ic (search_atoms q opts) t i = Some e \<longleftrightarrow>
             (e = i + length q \<and> i + length q \<le> length t \<and>
              (\<forall>k < length q. char_matches ic (t ! (i + k)) (q ! k)) \<and>
              (wholeWord opts \<longrightarrow>
                 word_boundary_at t i \<and> word_boundary_at t (i + length q)))"
    if "i \<le> length t" for ic t i e
  proof (cases "wholeWord opts")
    case True
    then show ?thesis
      using match_atoms_chars[where ic=ic and q=q and rest="[WordBoundary]" and tx=t and i=i] that
      by (auto simp: search_atoms_def)
  next
    case False
    then show ?thesis
      using match_atoms_chars[where ic=ic and q=q and rest="[]" and tx=t and i=i] that
      by (auto simp: search_atoms_def)
  qed
  then show ?thesis
    by (simp add: createSearchRegex_eq)
qed


lemma witness_chars:
  "(\<forall>k < length ''a.''. char_matches True (''A.b'' ! (0 + k)) (''a.'' ! k)) \<and>
   \<not> (\<forall>k < length ''a.''. char_matches True (''Axb'' ! (0 + k)) (''a.'' ! k)) \<and>
   word_boundary_at ''A.b'' 0 \<and> word_boundary_at ''A.b'' (0 + length ''a.'')"
proof -
  have "char_matches True CHR ''A'' CHR ''a''" "char_matches True CHR ''.'' CHR ''.''"
       "\<not> char_matches True CHR ''x'' CHR ''.''"
       "word_boundary_at ''A.b'' 0"  "word_boundary_at ''A.b'' 2"
    by code_simp+
  then show ?thesis
    by (auto simp: less_Suc_eq numeral_2_eq_2)
qed

theorem createSearchRegex_literal_witness:
  "\<exists>r. createSearchRegex ''a.'' \<lparr>caseSensitive = False, wholeWord = True\<rparr> = Some r \<and>
        ignoreCase r \<and>
        match_atoms (ignoreCase r) (atoms r) ''A.b'' 0 = Some 2 \<and>
        match_atoms (ignoreCase r) (atoms r) ''Axb'' 0 \<noteq> Some 2"
proof -
  obtain r where
    r: "createSearchRegex ''a.'' \<lparr>caseSensitive = False, wholeWord = True\<rparr> = Some r"
       "ignoreCase r"
    and m: "\<And>t i e. i \<le> length t \<Longrightarrow>
           match_atoms (ignoreCase r) (atoms r) t i = Some e \<longleftrightarrow>
             (e = i + length ''a.'' \<and> i + length ''a.'' \<le> length t \<and>
              (\<forall>k < length ''a.''. char_matches True (t ! (i + k)) (''a.'' ! k)) \<and>
              (word_boundary_at t i \<and> word_boundary_at t (i + length ''a.'')))"
    using createSearchRegex_literal[of "''a.''" "\<lparr>caseSensitive = False, wholeWord = True\<rparr>"]
    by auto
  have "match_atoms (ignoreCase r) (atoms r) ''A.b'' 0 = Some 2"
    using m[of 0 "''A.b''" 2] witness_chars by simp
  moreover have "match_atoms (ignoreCase r) (atoms r) ''Axb'' 0 \<noteq> Some 2"
    using m[of 0 "''Axb''" 2] witness_chars by simp
  ultimately show ?thesis using r by blast
qed

section \<open>Properties of the highlight renderer\<close>

subsection \<open>Text is preserved\<close>

lemma textContent_merge_text:
  "concat (map textContent (merge_text ns)) = concat (map textContent ns)"
  by (induction ns rule: merge_text.induct) (auto split: list.splits node.splits)

lemma concat_map_cong:
  "(\<And>x. x \<in> set xs \<Longrightarrow> f x = g x) \<Longrightarrow> concat (map f xs) = concat (map g xs)"
  by (induction xs) auto

lemma textContent_normalize_node: "textContent (normalize_node n) = textContent n"
proof (induction n)
  case (Elem tag cls attrs children)
  have "concat (map textContent (map normalize_node children)) = concat (map textContent children)"
    unfolding map_map comp_def using Elem by (rule concat_map_cong)
  then show ?case by (simp only: normalize_node.simps textContent.simps textContent_merge_text)
qed simp_all

lemma textContent_removeHighlights: "textContent (removeHighlights n) = textContent n"
proof (induction n)
  case (Elem tag cls attrs children)
  let ?f = "\<lambda>n. if is_highlight n then TextN (textContent n) else removeHighlights n"
  have f: "textContent (?f x) = textContent x" if "x \<in> set children" for x
    using Elem[OF that] by simp
  have 1: "concat (map textContent (map ?f children)) = concat (map textContent children)"
    unfolding map_map comp_def using f by (rule concat_map_cong)
  have "concat (map textContent (map normalize_node (map ?f children))) =
        concat (map textContent (map ?f children))"
    unfolding map_map comp_def by (rule concat_map_cong) (simp add: textContent_normalize_node)
  with 1 have 2: "concat (map textContent (merge_text (map normalize_node (map ?f children)))) =
        concat (map textContent children)"
    by (simp only: textContent_merge_text)
  show ?case
  proof (cases "list_ex is_highlight children")
    case True
    then show ?thesis using 2 by (simp add: Let_def)
  next
    case False
    then show ?thesis using 1 by (simp add: Let_def)
  qed
qed simp_all

lemma substring_split:
  assumes "0 \<le> a" "a \<le> b" "b \<le> int (length t)"
  shows "substring t 0 a @ substring t a b @ substring_from t b = t"
proof -
  have ca: "clamp_index t a = nat a" and cb: "clamp_index t b = nat b"
    and c0: "clamp_index t 0 = 0"
    using assms by (auto simp: clamp_index_def)
  have ab: "nat a \<le> nat b" using assms by simp
  have "drop (nat b) t = drop (nat b - nat a) (drop (nat a) t)"
    using ab by simp
  then have "take (nat b - nat a) (drop (nat a) t) @ drop (nat b) t = drop (nat a) t"
    by (simp only: append_take_drop_id)
  then show ?thesis
    using ab by (simp add: substring_def substring_from_def ca cb c0 Let_def max_def min_def)
qed

lemma textContent_highlight_span [simp]:
  "textContent (highlight_span ms cur m matchText) = matchText"
  by (simp add: highlight_span_def)

lemma nodeMatches_within:
  "m \<in> set (nodeMatches ms nodeStart nodeEnd) \<Longrightarrow>
     m \<in> set ms \<and> nodeStart \<le> startIndex m \<and> endIndex m \<le> nodeEnd"
  by (auto simp: nodeMatches_def sortedMatches_def)

lemma textContent_highlight_text_node:
  assumes "\<forall>m \<in> set ms. startIndex m \<le> endIndex m"
  shows "concat (map textContent (highlight_text_node ms cur nodeStart nodeText)) = nodeText"
proof (cases "rev (nodeMatches ms nodeStart (nodeStart + int (length nodeText)))")
  case Nil
  then show ?thesis by (simp add: highlight_text_node_def Let_def)
next
  case (Cons m others)
  then have "m \<in> set (nodeMatches ms nodeStart (nodeStart + int (length nodeText)))"
    by (metis list.set_intros(1) set_rev)
  from nodeMatches_within[OF this] assms
  have b: "0 \<le> startIndex m - nodeStart" "startIndex m - nodeStart \<le> endIndex m - nodeStart"
    "endIndex m - nodeStart \<le> int (length nodeText)"
    by auto
  have "concat (map textContent (highlight_text_node ms cur nodeStart nodeText)) =
          substring nodeText 0 (startIndex m - nodeStart) @
          substring nodeText (startIndex m - nodeStart) (endIndex m - nodeStart) @
          substring_from nodeText (endIndex m - nodeStart)"
    using Cons by (simp add: highlight_text_node_def Let_def)
  then show ?thesis
    using substring_split[OF b] by simp
qed

lemma highlight_walk_text:
  "\<forall>m \<in> set ms. startIndex m \<le> endIndex m \<Longrightarrow>
     concat (map textContent (fst (highlight_node ms cur off n))) = textContent n \<and>
     snd (highlight_node ms cur off n) = off + int (length (textContent n))"
  "\<forall>m \<in> set ms. startIndex m \<le> endIndex m \<Longrightarrow>
     concat (map textContent (fst (highlight_nodes ms cur off ns))) = concat (map textContent ns) \<and>
     snd (highlight_nodes ms cur off ns) = off + int (length (concat (map textContent ns)))"
proof (induction ms cur off n and ms cur off ns rule: highlight_node_highlight_nodes.induct)
  case (1 ms cur off s)
  then show ?case by (simp add: textContent_highlight_text_node)
next
  case (2 ms cur off s)
  then show ?case by simp
next
  case (3 ms cur off tag cls attrs children)
  then show ?case by (simp add: split_beta)
next
  case (4 ms cur off)
  then show ?case by simp
next
  case (5 ms cur off n ns)
  obtain r off1 where hn: "highlight_node ms cur off n = (r, off1)"
    by (cases "highlight_node ms cur off n")
  have 1: "concat (map textContent r) = textContent n" "off1 = off + int (length (textContent n))"
    using "5.IH"(1)[OF "5.prems"] hn by simp_all
  have 2: "concat (map textContent (fst (highlight_nodes ms cur off1 ns))) =
             concat (map textContent ns)"
          "snd (highlight_nodes ms cur off1 ns) =
             off1 + int (length (concat (map textContent ns)))"
    using "5.IH"(2)[OF refl hn[symmetric] "5.prems"] by simp_all
  show ?case using hn 1 2 by (simp add: split_beta)
qed

lemma textContent_highlightMatches:
  assumes "\<forall>m \<in> set ms. startIndex m \<le> endIndex m"
  shows "textContent (highlightMatches el ms cur) = textContent el"
proof -
  have "textContent (removeHighlights el) = textContent el"
    by (rule textContent_removeHighlights)
  then show ?thesis
    using highlight_walk_text(2)[OF assms]
    by (cases "removeHighlights el") (auto simp: highlightMatches_def Let_def)
qed


subsection \<open>Markers\<close>

lemma markers_merge_text: "concat (map markers (merge_text ns)) = concat (map markers ns)"
  by (induction ns rule: merge_text.induct) (auto split: list.splits node.splits)

lemma markers_normalize_node: "markers (normalize_node n) = markers n"
proof (induction n)
  case (Elem tag cls attrs children)
  have t: "concat (map textContent (merge_text (map normalize_node children))) =
           concat (map textContent children)"
    unfolding textContent_merge_text map_map comp_def
    by (rule concat_map_cong) (simp add: textContent_normalize_node)
  have m: "concat (map markers (merge_text (map normalize_node children))) =
           concat (map markers children)"
    unfolding markers_merge_text map_map comp_def
    using Elem by (rule concat_map_cong)
  show ?case by (simp add: t m)
qed simp_all

lemma concat_map_Nil: "(\<And>x. x \<in> set xs \<Longrightarrow> f x = []) \<Longrightarrow> concat (map f xs) = []"
  by (induction xs) auto

lemma markers_removeHighlights_child:
  "\<not> is_highlight c \<Longrightarrow> markers (removeHighlights c) = decorations (removeHighlights c)"
  by (cases c) (simp_all add: Let_def)

lemma decorations_removeHighlights: "decorations (removeHighlights n) = []"
proof (induction n)
  case (Elem tag cls attrs children)
  let ?f = "\<lambda>n. if is_highlight n then TextN (textContent n) else removeHighlights n"
  have f: "markers (?f x) = []" if "x \<in> set children" for x
    using Elem[OF that] markers_removeHighlights_child[of x] by simp
  have 1: "concat (map markers (map ?f children)) = []"
    unfolding map_map comp_def using f by (rule concat_map_Nil)
  have "concat (map markers (map normalize_node (map ?f children))) =
        concat (map markers (map ?f children))"
    unfolding map_map comp_def by (rule concat_map_cong) (simp add: markers_normalize_node)
  with 1 have 2: "concat (map markers (merge_text (map normalize_node (map ?f children)))) = []"
    by (simp only: markers_merge_text)
  show ?case
  proof (cases "list_ex is_highlight children")
    case True
    then show ?thesis using 2 by (simp add: Let_def)
  next
    case False
    then show ?thesis using 1 by (simp add: Let_def)
  qed
qed simp_all

subsection \<open>Which match a text node shows\<close>

lemma last_insort_key:
  fixes f :: "'a \<Rightarrow> int"
  shows "sorted (map f ys) \<Longrightarrow>
     last (insort_key f x ys) = (if ys = [] \<or> f (last ys) < f x then x else last ys)"
proof (induction ys)
  case Nil
  show ?case by simp
next
  case (Cons y ys)
  then have s: "sorted (map f ys)" and le: "\<forall>z \<in> set ys. f y \<le> f z" by auto
  show ?case
  proof (cases "f x \<le> f y")
    case True
    have "f y \<le> f (last (y # ys))" using le by (cases "ys = []") auto
    with True show ?thesis by auto
  next
    case False
    then have "insort_key f x (y # ys) = y # insort_key f x ys" by simp
    moreover have "insort_key f x ys \<noteq> []" by (cases ys) auto
    ultimately have "last (insort_key f x (y # ys)) = last (insort_key f x ys)" by simp
    with Cons.IH[OF s] False show ?thesis by auto
  qed
qed

lemma sort_key_Nil_iff: "sort_key f xs = [] \<longleftrightarrow> xs = []"
proof
  assume "sort_key f xs = []"
  then have "length (sort_key f xs) = 0" by simp
  then show "xs = []" by simp
qed simp

lemma pick_first_sort:
  "pick_first xs = (if xs = [] then None else Some (last (sort_key (\<lambda>m. - startIndex m) xs)))"
proof (induction xs)
  case Nil
  show ?case by simp
next
  case (Cons x xs)
  let ?f = "\<lambda>m::'a SearchMatch. - startIndex m"
  have step: "last (sort_key ?f (x # xs)) =
        (if sort_key ?f xs = [] \<or> ?f (last (sort_key ?f xs)) < ?f x then x
         else last (sort_key ?f xs))"
    using last_insort_key[of ?f "sort_key ?f xs" x] by simp
  show ?case
  proof (cases "xs = []")
    case True
    then show ?thesis by simp
  next
    case False
    then have pf: "pick_first xs = Some (last (sort_key ?f xs))"
      using Cons.IH by simp
    have ne: "sort_key ?f xs \<noteq> []" using False by (simp add: sort_key_Nil_iff)
    have "pick_first (x # xs) =
            (if startIndex x < startIndex (last (sort_key ?f xs)) then Some x
             else Some (last (sort_key ?f xs)))"
      by (simp only: pick_first.simps pf option.case)
    also have "\<dots> = Some (last (sort_key ?f (x # xs)))"
      unfolding step using ne by simp
    finally show ?thesis by simp
  qed
qed

lemma rev_nodeMatches:
  "rev (nodeMatches ms s e) = [] \<longleftrightarrow> first_in_node ms s e = None"
  "rev (nodeMatches ms s e) = m # others \<Longrightarrow> first_in_node ms s e = Some m"
proof -
  let ?P = "\<lambda>m::'a SearchMatch. s \<le> startIndex m \<and> endIndex m \<le> e"
  let ?f = "\<lambda>m::'a SearchMatch. - startIndex m"
  have nm: "nodeMatches ms s e = sort_key ?f (filter ?P ms)"
    by (simp add: nodeMatches_def sortedMatches_def filter_sort)
  have fi: "first_in_node ms s e =
          (if filter ?P ms = [] then None else Some (last (nodeMatches ms s e)))"
    unfolding nm first_in_node_def by (rule pick_first_sort)
  have ne: "nodeMatches ms s e = [] \<longleftrightarrow> filter ?P ms = []"
    unfolding nm by (rule sort_key_Nil_iff)
  show "rev (nodeMatches ms s e) = [] \<longleftrightarrow> first_in_node ms s e = None"
    unfolding fi using ne by simp
  assume r: "rev (nodeMatches ms s e) = m # others"
  then have n: "nodeMatches ms s e = rev others @ [m]"
    by (simp add: rev_eq_Cons_iff)
  then have "nodeMatches ms s e \<noteq> []" "last (nodeMatches ms s e) = m" by simp_all
  then show "first_in_node ms s e = Some m"
    unfolding fi using ne by simp
qed

lemma markers_highlight_span:
  "markers (highlight_span ms cur m matchText) = [(match_id m, matchText)]"
  by (simp add: highlight_span_def)

lemma markers_highlight_text_node:
  "concat (map markers (highlight_text_node ms cur nodeStart nodeText)) =
     leaf_decoration ms (nodeStart, nodeText)"
proof (cases "rev (nodeMatches ms nodeStart (nodeStart + int (length nodeText)))")
  case Nil
  then show ?thesis
    using rev_nodeMatches(1)[of ms nodeStart "nodeStart + int (length nodeText)"]
    by (simp add: highlight_text_node_def leaf_decoration_def Let_def)
next
  case (Cons m others)
  then show ?thesis
    using rev_nodeMatches(2)[OF Cons]
    by (simp add: highlight_text_node_def leaf_decoration_def Let_def markers_highlight_span)
qed

lemma concat_textNodes: "concat (textNodes n) = textContent n"
proof (induction n)
  case (Elem tag cls attrs children)
  have "concat (concat (map textNodes children)) = concat (map (\<lambda>c. concat (textNodes c)) children)"
    by (induction children) auto
  also have "\<dots> = concat (map textContent children)"
    using Elem by (rule concat_map_cong)
  finally show ?case by simp
qed simp_all

lemma leaf_offsets_append:
  "leaf_offsets off (xs @ ys) =
     leaf_offsets off xs @ leaf_offsets (off + int (length (concat xs))) ys"
  by (induction xs arbitrary: off) (auto simp: algebra_simps)

lemma highlight_walk_offset:
  "snd (highlight_node ms cur off n) = off + int (length (textContent n))"
  "snd (highlight_nodes ms cur off ns) = off + int (length (concat (map textContent ns)))"
proof (induction ms cur off n and ms cur off ns rule: highlight_node_highlight_nodes.induct)
  case (5 ms cur off n ns)
  obtain r off1 where hn: "highlight_node ms cur off n = (r, off1)"
    by (cases "highlight_node ms cur off n")
  have 1: "off1 = off + int (length (textContent n))"
    using "5.IH"(1) hn by simp
  have 2: "snd (highlight_nodes ms cur off1 ns) =
             off1 + int (length (concat (map textContent ns)))"
    using "5.IH"(2)[OF refl hn[symmetric]] by simp
  show ?case using hn 1 2 by (simp add: split_beta)
qed (simp_all add: split_beta)

lemma highlight_walk_markers:
  "markers n = [] \<Longrightarrow>
     concat (map markers (fst (highlight_node ms cur off n))) =
       concat (map (leaf_decoration ms) (leaf_offsets off (textNodes n)))"
  "concat (map markers ns) = [] \<Longrightarrow>
     concat (map markers (fst (highlight_nodes ms cur off ns))) =
       concat (map (leaf_decoration ms) (leaf_offsets off (concat (map textNodes ns))))"
proof (induction ms cur off n and ms cur off ns rule: highlight_node_highlight_nodes.induct)
  case (1 ms cur off s)
  show ?case by (simp add: markers_highlight_text_node)
next
  case (2 ms cur off s)
  show ?case by simp
next
  case (3 ms cur off tag cls attrs children)
  from "3.prems" have c: "concat (map markers children) = []" and h: "''search-highlight'' \<notin> set cls"
    by (auto split: if_splits)
  show ?case using "3.IH"[OF c] h by (simp add: split_beta)
next
  case (4 ms cur off)
  show ?case by simp
next
  case (5 ms cur off n ns)
  obtain r off1 where hn: "highlight_node ms cur off n = (r, off1)"
    by (cases "highlight_node ms cur off n")
  from "5.prems" have pn: "markers n = []" and pns: "concat (map markers ns) = []" by auto
  have off1: "off1 = off + int (length (concat (textNodes n)))"
    using highlight_walk_offset(1)[of ms cur off n] hn by (simp add: concat_textNodes)
  have 1: "concat (map markers r) = concat (map (leaf_decoration ms) (leaf_offsets off (textNodes n)))"
    using "5.IH"(1)[OF pn] hn by simp
  have 2: "concat (map markers (fst (highlight_nodes ms cur off1 ns))) =
       concat (map (leaf_decoration ms) (leaf_offsets off1 (concat (map textNodes ns))))"
    using "5.IH"(2)[OF refl hn[symmetric] pns] by simp
  show ?case using hn 1 2 off1 by (simp add: split_beta leaf_offsets_append)
qed

lemma leaf_decoration_no_matches: "leaf_decoration [] leaf = []"
  by (cases leaf) (simp add: leaf_decoration_def first_in_node_def)

lemma decorations_highlightMatches:
  "decorations (highlightMatches el ms cur) =
     concat (map (leaf_decoration ms) (leaf_table (removeHighlights el)))"
proof (cases "ms = []")
  case True
  have "concat (map (leaf_decoration []) xs) = []" for xs :: "(int \<times> string) list"
    by (rule concat_map_Nil) (simp add: leaf_decoration_no_matches)
  with True show ?thesis
    by (simp add: highlightMatches_def decorations_removeHighlights)
next
  case False
  show ?thesis
  proof (cases "removeHighlights el")
    case (Elem tag cls attrs children)
    have "decorations (removeHighlights el) = []" by (rule decorations_removeHighlights)
    with Elem have c: "concat (map markers children) = []" by simp
    show ?thesis
      using False Elem highlight_walk_markers(2)[OF c, of ms cur 0]
      by (simp add: highlightMatches_def)
  qed (use False in \<open>simp_all add: highlightMatches_def\<close>)
qed

lemma first_in_node_props:
  "first_in_node ms s e = Some m \<Longrightarrow>
     m \<in> set ms \<and> s \<le> startIndex m \<and> endIndex m \<le> e \<and>
     (\<forall>m' \<in> set ms. s \<le> startIndex m' \<and> endIndex m' \<le> e \<longrightarrow> startIndex m \<le> startIndex m')"
proof -
  have pf: "pick_first xs = Some m \<Longrightarrow> m \<in> set xs \<and> (\<forall>m' \<in> set xs. startIndex m \<le> startIndex m')"
    for xs :: "'a SearchMatch list"
  proof (induction xs arbitrary: m)
    case Nil
    then show ?case by simp
  next
    case (Cons x xs)
    show ?case
    proof (cases "pick_first xs")
      case None
      then have "xs = []" by (cases xs) (auto split: option.splits if_splits)
      with Cons.prems show ?thesis by simp
    next
      case (Some m')
      from Cons.IH[OF Some] Cons.prems Some show ?thesis
        by (auto split: if_splits)
    qed
  qed
  assume "first_in_node ms s e = Some m"
  from pf[OF this[unfolded first_in_node_def]] show ?thesis by auto
qed

lemma first_in_node_None:
  "first_in_node ms s e = None \<longleftrightarrow>
     (\<forall>m \<in> set ms. \<not> (s \<le> startIndex m \<and> endIndex m \<le> e))"
proof -
  have "pick_first xs = None \<longleftrightarrow> xs = []" for xs :: "'a SearchMatch list"
    by (cases xs) (auto split: option.splits if_splits)
  then show ?thesis by (auto simp: first_in_node_def filter_empty_conv)
qed

lemma leaf_offsets_start: "(s, t) \<in> set (leaf_offsets off ts) \<Longrightarrow> off \<le> s"
proof (induction ts arbitrary: off)
  case (Cons a ts)
  then show ?case by (fastforce dest: Cons.IH)
qed simp

lemma leaf_offsets_disjoint:
  "(s, t) \<in> set (leaf_offsets off ts) \<Longrightarrow> (b, u) \<in> set (leaf_offsets off ts) \<Longrightarrow>
     b \<le> s \<or> s + int (length t) \<le> b"
proof (induction ts arbitrary: off)
  case Nil
  then show ?case by simp
next
  case (Cons a ts)
  from Cons.prems consider
      "(s, t) = (off, a)" "(b, u) = (off, a)"
    | "(s, t) = (off, a)" "(b, u) \<in> set (leaf_offsets (off + int (length a)) ts)"
    | "(s, t) \<in> set (leaf_offsets (off + int (length a)) ts)" "(b, u) = (off, a)"
    | "(s, t) \<in> set (leaf_offsets (off + int (length a)) ts)"
      "(b, u) \<in> set (leaf_offsets (off + int (length a)) ts)"
    by auto
  then show ?case
  proof cases
    case 1
    then show ?thesis by simp
  next
    case 2
    then show ?thesis using leaf_offsets_start[of b u "off + int (length a)" ts] by auto
  next
    case 3
    then show ?thesis using leaf_offsets_start[of s t "off + int (length a)" ts] by auto
  next
    case 4
    then show ?thesis using Cons.IH by blast
  qed
qed

lemma crossing_match_not_chosen:
  assumes "(s, t) \<in> set (leaf_table el)" "(b, u) \<in> set (leaf_table el)"
    and "startIndex m < b" "b < endIndex m"
  shows "first_in_node ms s (s + int (length t)) \<noteq> Some m"
proof
  assume "first_in_node ms s (s + int (length t)) = Some m"
  from first_in_node_props[OF this] have "s \<le> startIndex m" "endIndex m \<le> s + int (length t)"
    by auto
  moreover have "b \<le> s \<or> s + int (length t) \<le> b"
    using assms(1,2) by (cases el) (auto dest: leaf_offsets_disjoint)
  ultimately show False using assms(3,4) by auto
qed


text \<open>
  Where the walk of \<open>highlightMatches\<close> and the text of \<open>findTextMatches\<close> agree, and
  what the filter on the offsets of a text node gives in the offsets of that walk: a match
  with a boundary between text nodes strictly inside its span is decorated nowhere.
\<close>

lemma remove_script_style_free: "script_style_free n \<Longrightarrow> remove_script_style n = n"
proof (induction n)
  case (Elem tag cls attrs children)
  then have all: "\<forall>c \<in> set children. \<not> is_script_style c \<and> script_style_free c"
    by (simp add: list_all_iff)
  then have "filter (\<lambda>n. \<not> is_script_style n) children = children"
    by (simp add: filter_id_conv)
  moreover have "map remove_script_style children = children"
    using Elem.IH all by (simp add: map_idI)
  ultimately show ?case by simp
qed simp_all

lemma extractTextContent_free:
  "script_style_free el \<Longrightarrow> extractTextContent el = textContent el"
  by (simp add: extractTextContent_def remove_script_style_free)

lemma leaf_decoration_id:
  "(i, w) \<in> set (leaf_decoration ms (s, t)) \<Longrightarrow>
     \<exists>m. first_in_node ms s (s + int (length t)) = Some m \<and> i = match_id m"
proof (cases "first_in_node ms s (s + int (length t))")
  case None
  assume "(i, w) \<in> set (leaf_decoration ms (s, t))"
  with None show ?thesis by (simp add: leaf_decoration_def)
next
  case (Some m)
  assume "(i, w) \<in> set (leaf_decoration ms (s, t))"
  with Some show ?thesis by (simp add: leaf_decoration_def)
qed

lemma crossing_match_not_decorated:
  assumes m: "m \<in> set ms" and d: "distinct (map match_id ms)"
    and b: "(b, u) \<in> set (leaf_table (removeHighlights el))"
    and cross: "startIndex m < b" "b < endIndex m"
  shows "match_id m \<notin> fst ` set (decorations (highlightMatches el ms cur))"
proof
  assume "match_id m \<in> fst ` set (decorations (highlightMatches el ms cur))"
  then obtain w where "(match_id m, w) \<in> set (decorations (highlightMatches el ms cur))"
    by auto
  then obtain s t where leaf: "(s, t) \<in> set (leaf_table (removeHighlights el))"
    and w: "(match_id m, w) \<in> set (leaf_decoration ms (s, t))"
    by (auto simp: decorations_highlightMatches)
  from leaf_decoration_id[OF w] obtain m' where
    f: "first_in_node ms s (s + int (length t)) = Some m'" and i: "match_id m = match_id m'"
    by blast
  from first_in_node_props[OF f] have "m' \<in> set ms" by simp
  with m d i have "m' = m" by (simp add: distinct_map inj_on_def)
  with f crossing_match_not_chosen[OF leaf b cross, of ms] show False by simp
qed

subsection \<open>Removing what was highlighted\<close>












lemma replace_child_simps [simp]:
  "replace_child (TextN s) = TextN s"
  "replace_child (Comment s) = Comment s"
  "replace_child (highlight_span ms cur m matchText) = TextN matchText"
  by (simp_all add: replace_child_def highlight_span_def)

lemma is_highlight_span [simp]: "is_highlight (highlight_span ms cur m matchText)"
  by (simp add: highlight_span_def)












subsection \<open>The text without script and style\<close>





lemma is_script_style_normalize_node [simp]:
  "is_script_style (normalize_node n) = is_script_style n"
  by (cases n) simp_all


lemma is_script_style_coalesce_node [simp]:
  "is_script_style (coalesce_node ms off n) = is_script_style n"
  by (cases n) simp_all





lemma three_matches_spans: "\<forall>m \<in> set three_matches. startIndex m \<le> endIndex m"
  by (simp add: three_matches_def)



text \<open>
  C1, at a text node \<open>aa\<close> with the two matches of the query \<open>a\<close>, each within the
  node: the tree gets one decoration, for the first match; the second match has none.
\<close>

theorem second_match_in_text_node_not_decorated:
  "leaf_table (Elem ''div'' [] [] [TextN ''aa'']) = [(0, ''aa'')] \<and>
   decorations (highlightMatches (Elem ''div'' [] [] [TextN ''aa''])
     [\<lparr>match_id = ''e-0'', element = (), match_text = ''a'', startIndex = 0, endIndex = 1\<rparr>,
      \<lparr>match_id = ''e-1'', element = (), match_text = ''a'', startIndex = 1, endIndex = 2\<rparr>]
     None) = [(''e-0'', ''a'')]"
  by code_simp

text \<open>
  C1 as the code has it. For every element and every list of matches with
  \<open>startIndex \<le> endIndex\<close>, \<open>highlightMatches\<close> keeps the text of the element, character
  for character, and the decorations below the element afterwards are, text node by text
  node in document order, one per text node that has a match within it: the decoration
  of the first such match (the least \<open>startIndex\<close>), tagged with that match's id and
  wrapping the text of its span. The other matches within the text node get none.
\<close>

theorem highlightMatches_first_match_per_text_node:
  "\<forall>m \<in> set ms. startIndex m \<le> endIndex m \<Longrightarrow>
   textContent (highlightMatches el ms cur) = textContent el \<and>
   decorations (highlightMatches el ms cur) =
     concat (map (leaf_decoration ms) (leaf_table (removeHighlights el)))"
  by (simp add: textContent_highlightMatches decorations_highlightMatches)

lemma three_matches_decorations:
  "concat (map (leaf_decoration three_matches) (leaf_table (removeHighlights two_leaf_element))) =
     [(''e-0'', ''a''), (''e-2'', ''cd'')]"
  by code_simp

theorem highlightMatches_first_match_per_text_node_witness:
  "textContent (highlightMatches two_leaf_element three_matches (Some 0)) = ''abcd'' \<and>
   decorations (highlightMatches two_leaf_element three_matches (Some 0)) =
     [(''e-0'', ''a''), (''e-2'', ''cd'')]"
  using highlightMatches_first_match_per_text_node
          [OF three_matches_spans, of two_leaf_element "Some 0"]
  by (simp add: three_matches_decorations) (simp add: two_leaf_element_def)

text \<open>
  C3, at an element whose first child is a \<^verbatim>\<open>style\<close> element. The query \<open>bc\<close> is found
  in the flat text \<open>abcd\<close> at \<open>1\<close> to \<open>3\<close>, across the text nodes \<open>ab\<close> and \<open>cd\<close>. The
  walk of \<open>highlightMatches\<close> counts the text node inside \<^verbatim>\<open>style\<close>, which
  \<open>extractTextContent\<close> removed, so for it the text node \<open>ab\<close> runs from \<open>1\<close> to \<open>3\<close>,
  and the match is decorated there, around \<open>ab\<close>.
\<close>

theorem cross_leaf_match_decorated_after_style:
  "extractTextContent style_element = ''abcd'' \<and>
   findTextMatches style_element ''bc'' plain_options ''search-element-0'' =
     Some [\<lparr>match_id = ''search-element-0-0'', element = style_element, match_text = ''bc'',
            startIndex = 1, endIndex = 3\<rparr>] \<and>
   highlightMatches style_element
     [\<lparr>match_id = ''search-element-0-0'', element = style_element, match_text = ''bc'',
            startIndex = 1, endIndex = 3\<rparr>] (Some 0) =
     Elem ''div'' [''rich-output-markdown''] []
       [Elem ''style'' [] [] [TextN ''x''],
        Elem ''span'' [''search-highlight'', ''search-highlight-current'']
          [(''data-search-match'', ''search-element-0-0'')] [TextN ''ab''],
        Elem ''b'' [] [] [TextN ''cd'']]"
  by code_simp

end
